theory Spec2Isabelle
  imports Complex_Main "HOL-Library.Multiset"
begin

section \<open>JavaScript values used by the circuit engine\<close>

text \<open>
  The engine is TypeScript running on JavaScript arrays. An array slot either was never
  written (a hole), holds \<^verbatim>\<open>undefined\<close> (or \<^verbatim>\<open>null\<close>, which every operation of the
  engine treats alike), or holds a value. Reading a hole gives \<^verbatim>\<open>undefined\<close>; writing past
  the end extends the array with holes. Array indices, pin counts and the tick counter are
  natural numbers; coordinates, sizes and timestamps are real numbers (floating-point rounding
  is not modelled).
\<close>

datatype 'a slot = Hole | Undef | Val 'a

text \<open>\<^verbatim>\<open>xs[i]\<close>: \<open>None\<close> stands for \<^verbatim>\<open>undefined\<close>.\<close>

definition js_get :: "'a slot list \<Rightarrow> nat \<Rightarrow> 'a option" where
  "js_get xs i =
     (if i < length xs then (case xs ! i of Val v \<Rightarrow> Some v | _ \<Rightarrow> None) else None)"

text \<open>\<^verbatim>\<open>xs[i] = v\<close>.\<close>

definition js_set :: "'a slot list \<Rightarrow> nat \<Rightarrow> 'a slot \<Rightarrow> 'a slot list" where
  "js_set xs i v =
     (if i < length xs then xs[i := v] else xs @ replicate (i - length xs) Hole @ [v])"

text \<open>A value that was read, stored again.\<close>

definition to_slot :: "'a option \<Rightarrow> 'a slot" where
  "to_slot v = (case v of None \<Rightarrow> Undef | Some b \<Rightarrow> Val b)"

text \<open>\<^verbatim>\<open>new Array(n)\<close> and \<^verbatim>\<open>xs.fill(v)\<close>.\<close>

definition new_Array :: "nat \<Rightarrow> 'a slot list" where
  "new_Array n = replicate n Hole"

definition js_fill :: "'a slot list \<Rightarrow> 'a \<Rightarrow> 'a slot list" where
  "js_fill xs v = replicate (length xs) (Val v)"

text \<open>Truthiness of a boolean-or-undefined value, and the operators the gates use.\<close>

definition truthy :: "bool option \<Rightarrow> bool" where
  "truthy v = (v = Some True)"

definition js_and :: "bool option \<Rightarrow> bool option \<Rightarrow> bool option" where
  "js_and a b = (if truthy a then b else a)"

definition js_or :: "bool option \<Rightarrow> bool option \<Rightarrow> bool option" where
  "js_or a b = (if truthy a then a else b)"

definition js_not :: "bool option \<Rightarrow> bool option" where
  "js_not a = Some (\<not> truthy a)"

text \<open>Values of type \<^verbatim>\<open>any\<close> (an IC's internal state, a parsed document).\<close>

datatype json =
    JNull
  | JBool bool
  | JNum real
  | JStr string
  | JArr "json list"
  | JObj "(string \<times> json) list"

fun json_truthy :: "json \<Rightarrow> bool" where
  "json_truthy JNull = False"
| "json_truthy (JBool b) = b"
| "json_truthy (JNum r) = (r \<noteq> 0)"
| "json_truthy (JStr s) = (s \<noteq> [])"
| "json_truthy (JArr _) = True"
| "json_truthy (JObj _) = True"

text \<open>Numbers that may be infinite: the bounding box of an empty set of nodes.\<close>

datatype jsnum = Fin real | PosInf | NegInf | NaN

section \<open>Data model (engine/types)\<close>

datatype node_type =
  AND | OR | NOT | XOR | NAND | SWITCH | LIGHT | CLOCK | BUFFER | GROUP | IC

record vector2 =
  px :: real
  py :: real

record wire =
  wire_id :: string
  sourceNodeId :: string
  sourcePinIndex :: nat
  targetNodeId :: string
  targetPinIndex :: nat
  state :: bool

record ioMap_t =
  io_inputs :: "string list"
  io_outputs :: "string list"

text \<open>
  A \<^verbatim>\<open>LogicNode\<close>. Optional fields are options (\<open>None\<close> for an absent field). The
  stored subgraph of an IC holds nodes again, so the node is a datatype around the record
  of its other fields.
\<close>

record node_core =
  node_id :: string
  ntype :: node_type
  position :: vector2
  inputs :: "bool slot list"
  outputs :: "bool slot list"
  label :: "string option"
  color :: "string option"
  groupId :: "string option"
  width :: "jsnum option"
  height :: "jsnum option"
  inputCount :: "nat option"
  outputCount :: "nat option"
  truthTable :: "(string \<times> real list) list option"
  ioMap :: "ioMap_t option"
  internalState :: "json option"
  inputMapping :: "nat slot list option"
  outputMapping :: "nat slot list option"
  compiledFunction :: "string option"
  equations :: "string list option"

datatype node = Node (core: node_core) (internals: "(node list \<times> wire list) option")

definition nid :: "node \<Rightarrow> string" where
  "nid n = node_id (core n)"

definition typ_of :: "node \<Rightarrow> node_type" where
  "typ_of n = ntype (core n)"

definition upd :: "(node_core \<Rightarrow> node_core) \<Rightarrow> node \<Rightarrow> node" where
  "upd f n = Node (f (core n)) (internals n)"

record viewport_t =
  vp_x :: real
  vp_y :: real
  zoom :: real

text \<open>One history entry: the serialized graph.\<close>

record snapshot =
  snap_nodes :: "node list"
  snap_wires :: "wire list"
  snap_viewport :: viewport_t

text \<open>
  The engine. \<open>nodes\<close> is the \<^verbatim>\<open>Map\<close> from id to node in insertion order; every
  \<^verbatim>\<open>set\<close> of the engine uses the node's own id as key, so the map is the list of its values.
  The sets of selected ids are lists in insertion order. \<open>fnCache\<close> maps a node id to the
  code body its cached callable was built from. Pointer state (drag, hover, wiring) and
  the clipboard are not touched by the operations below and are left out.
\<close>

record engine =
  nodes :: "node list"
  wires :: "wire list"
  viewport :: viewport_t
  selectedNodeIds :: "string list"
  selectedWireIds :: "string list"
  isRunning :: bool
  tickRate :: real
  lastTick :: real
  tickCount :: nat
  fnCache :: "(string \<times> string) list"
  historyStack :: "snapshot list"
  redoStack :: "snapshot list"
  maxHistory :: nat
  isRestoringHistory :: bool

subsection \<open>The node map\<close>

definition getNode :: "node list \<Rightarrow> string \<Rightarrow> node option" where
  "getNode ns k = find (\<lambda>n. nid n = k) ns"

text \<open>\<^verbatim>\<open>nodes.set(n.id, n)\<close>: an existing key keeps its place.\<close>

definition setNode :: "node list \<Rightarrow> node \<Rightarrow> node list" where
  "setNode ns n =
     (if nid n \<in> nid ` set ns then map (\<lambda>m. if nid m = nid n then n else m) ns
      else ns @ [n])"

definition deleteNode :: "node list \<Rightarrow> string \<Rightarrow> node list" where
  "deleteNode ns k = filter (\<lambda>n. nid n \<noteq> k) ns"

text \<open>Mutating the node object stored under key \<open>k\<close>.\<close>

definition modifyNode :: "string \<Rightarrow> (node_core \<Rightarrow> node_core) \<Rightarrow> node list \<Rightarrow> node list" where
  "modifyNode k f ns = map (\<lambda>n. if nid n = k then upd f n else n) ns"

section \<open>Simulation (CircuitEngine.tick)\<close>

definition getInputCount :: "node_type \<Rightarrow> node_core option \<Rightarrow> nat" where
  "getInputCount t nd =
     (case (if t = IC then (case nd of None \<Rightarrow> None | Some c \<Rightarrow> inputCount c) else None) of
        Some k \<Rightarrow> k
      | None \<Rightarrow>
         (if t = NOT \<or> t = BUFFER \<or> t = LIGHT then 1
          else if t = SWITCH \<or> t = CLOCK \<or> t = GROUP then 0
          else 2))"

definition getOutputCount :: "node_type \<Rightarrow> node_core option \<Rightarrow> nat" where
  "getOutputCount t nd =
     (case (if t = IC then (case nd of None \<Rightarrow> None | Some c \<Rightarrow> outputCount c) else None) of
        Some k \<Rightarrow> k
      | None \<Rightarrow> (if t = LIGHT \<or> t = GROUP then 0 else 1))"

subsection \<open>The host: building a callable from a code body\<close>

text \<open>
  \<^verbatim>\<open>new Function('inputs', 'state', body)\<close> is the JavaScript host's: it is a parameter of
  the model. The host either rejects the body (\<open>None\<close>, a SyntaxError) or gives a callable.
  A call of the callable throws, or returns an array (the legacy shape), or an object with
  an \<^verbatim>\<open>outputs\<close> array and a \<^verbatim>\<open>state\<close> (absent: \<open>None\<close>), or anything else, which the tick
  ignores.
\<close>

datatype fn_result =
    Throws
  | RetArray "json list"
  | RetObject "json list" "json option"
  | RetOther

type_synonym callable = "bool slot list \<Rightarrow> json \<Rightarrow> fn_result"

type_synonym host = "string \<Rightarrow> callable option"

datatype js_error = RuntimeError

text \<open>A code body or state that is present and truthy.\<close>

definition has_code :: "node_core \<Rightarrow> bool" where
  "has_code c = (case compiledFunction c of None \<Rightarrow> False | Some body \<Rightarrow> body \<noteq> [])"

definition count_or0 :: "nat option \<Rightarrow> nat" where
  "count_or0 k = (case k of None \<Rightarrow> 0 | Some v \<Rightarrow> v)"

definition state_or_empty :: "json option \<Rightarrow> json" where
  "state_or_empty st = (case st of None \<Rightarrow> JArr [] | Some v \<Rightarrow> if json_truthy v then v else JArr [])"

text \<open>Pins to ports: \<^verbatim>\<open>mappedInputs[portIdx] = i[pinIdx]\<close>.\<close>

definition mapInputs :: "node_core \<Rightarrow> bool slot list" where
  "mapInputs c =
     (let i = inputs c; mappedInputs = new_Array (count_or0 (inputCount c)) in
      case inputMapping c of
        Some m \<Rightarrow>
          fold (\<lambda>(pinIdx, portIdx) acc.
                  case portIdx of
                    Val p \<Rightarrow> js_set acc p (to_slot (js_get i pinIdx))
                  | _ \<Rightarrow> acc)
               (zip [0..<length m] m) mappedInputs
      | None \<Rightarrow>
          fold (\<lambda>k acc. js_set acc k (to_slot (js_get i k))) [0..<length i] mappedInputs)"

text \<open>
  Ports to pins: \<^verbatim>\<open>mappedOutputs[pinIdx] = result.outputs[portIdx]\<close>, then
  \<^verbatim>\<open>mappedOutputs.map(v => v === 1)\<close>, which skips holes.
\<close>

definition result_at :: "json list \<Rightarrow> nat \<Rightarrow> json slot" where
  "result_at outs k = (if k < length outs then Val (outs ! k) else Undef)"

definition is_one :: "json slot \<Rightarrow> bool slot" where
  "is_one v = (case v of Hole \<Rightarrow> Hole | Undef \<Rightarrow> Val False | Val j \<Rightarrow> Val (j = JNum 1))"

definition mapOutputs :: "node_core \<Rightarrow> json list \<Rightarrow> bool slot list" where
  "mapOutputs c outs =
     (let mappedOutputs = new_Array (count_or0 (outputCount c)) in
      map is_one
        (case outputMapping c of
           Some m \<Rightarrow>
             fold (\<lambda>(pinIdx, portIdx) acc.
                     case portIdx of
                       Val p \<Rightarrow> js_set acc pinIdx (result_at outs p)
                     | Undef \<Rightarrow> js_set acc pinIdx Undef
                     | Hole \<Rightarrow> acc)
                  (zip [0..<length m] m) mappedOutputs
         | None \<Rightarrow>
             fold (\<lambda>k acc. js_set acc k (result_at outs k)) [0..<length outs] mappedOutputs))"

text \<open>The truth-table key: \<^verbatim>\<open>i.map(b => b ? '1' : '0').join('')\<close>.\<close>

definition tableKey :: "bool slot list \<Rightarrow> string" where
  "tableKey i =
     concat (map (\<lambda>b. case b of Hole \<Rightarrow> [] | Undef \<Rightarrow> ''0''
                        | Val v \<Rightarrow> if v then ''1'' else ''0'') i)"

subsection \<open>Evaluating one node\<close>

text \<open>
  The body of the last \<^verbatim>\<open>forEach\<close> of \<^verbatim>\<open>tick\<close>. The result is the function cache and
  the node after the step, or the error thrown by the callable together with the cache at
  that moment (the node is then as it was).
\<close>

definition evalIC :: "host \<Rightarrow> (string \<times> string) list \<Rightarrow> node \<Rightarrow>
    (js_error \<times> (string \<times> string) list) + ((string \<times> string) list \<times> node)" where
  "evalIC h cache n =
     (let c = core n in
      if has_code c then
        (let body = the (compiledFunction c);
             cached = map_of cache (nid n);
             cache' = (case cached of
                         Some b \<Rightarrow> cache
                       | None \<Rightarrow> (case h body of None \<Rightarrow> cache
                                   | Some f \<Rightarrow> cache @ [(nid n, body)]));
             fn = (case cached of Some b \<Rightarrow> h b | None \<Rightarrow> h body)
         in case fn of
              None \<Rightarrow> Inr (cache', n)
            | Some f \<Rightarrow>
               (case f (mapInputs c) (state_or_empty (internalState c)) of
                  Throws \<Rightarrow> Inl (RuntimeError, cache')
                | RetArray res \<Rightarrow>
                    Inr (cache', upd (\<lambda>c. c\<lparr>outputs := map (\<lambda>v. Val (v = JNum 1)) res\<rparr>) n)
                | RetObject outs st \<Rightarrow>
                    Inr (cache', upd (\<lambda>c. c\<lparr>outputs := mapOutputs c outs,
                                                internalState := st\<rparr>) n)
                | RetOther \<Rightarrow> Inr (cache', n)))
      else
        (case truthTable c of
           Some tt \<Rightarrow>
             (case map_of tt (tableKey (inputs c)) of
                Some bits \<Rightarrow> Inr (cache, upd (\<lambda>c. c\<lparr>outputs := map (\<lambda>bit. Val (bit = 1)) bits\<rparr>) n)
              | None \<Rightarrow> Inr (cache, n))
         | None \<Rightarrow> Inr (cache, n)))"

definition setOut0 :: "bool option \<Rightarrow> node \<Rightarrow> node" where
  "setOut0 v n = upd (\<lambda>c. c\<lparr>outputs := js_set (outputs c) 0 (to_slot v)\<rparr>) n"

definition evalNode :: "host \<Rightarrow> (string \<times> string) list \<Rightarrow> node \<Rightarrow>
    (js_error \<times> (string \<times> string) list) + ((string \<times> string) list \<times> node)" where
  "evalNode h cache n =
     (let i = inputs (core n) in
      case typ_of n of
        AND \<Rightarrow> Inr (cache, setOut0 (js_and (js_get i 0) (js_get i 1)) n)
      | OR \<Rightarrow> Inr (cache, setOut0 (js_or (js_get i 0) (js_get i 1)) n)
      | NOT \<Rightarrow> Inr (cache, setOut0 (js_not (js_get i 0)) n)
      | NAND \<Rightarrow> Inr (cache, setOut0 (js_not (js_and (js_get i 0) (js_get i 1))) n)
      | XOR \<Rightarrow> Inr (cache, setOut0 (Some (truthy (js_get i 0) \<noteq> truthy (js_get i 1))) n)
      | BUFFER \<Rightarrow> Inr (cache, setOut0 (js_get i 0) n)
      | IC \<Rightarrow> evalIC h cache n
      | _ \<Rightarrow> Inr (cache, n))"

text \<open>
  The loop over all nodes. When a callable throws, the loop stops: nodes before the
  throwing one have their new outputs, the others are as they were.
\<close>

fun computeLogic :: "host \<Rightarrow> (string \<times> string) list \<Rightarrow> node list \<Rightarrow>
    (string \<times> string) list \<times> node list \<times> js_error option" where
  "computeLogic h cache [] = (cache, [], None)"
| "computeLogic h cache (n # ns) =
     (case evalNode h cache n of
        Inl (e, cache') \<Rightarrow> (cache', n # ns, Some e)
      | Inr (cache', n') \<Rightarrow>
          (case computeLogic h cache' ns of
             (cache'', ns', r) \<Rightarrow> (cache'', n' # ns', r)))"

subsection \<open>The phases before evaluation\<close>

definition updateClock :: "nat \<Rightarrow> node \<Rightarrow> node" where
  "updateClock tc n =
     (if typ_of n = CLOCK
      then upd (\<lambda>c. c\<lparr>outputs := js_set (outputs c) 0 (Val ((tc div 5) mod 2 = 0))\<rparr>) n
      else n)"

definition resetInputs :: "node \<Rightarrow> node" where
  "resetInputs n =
     (if typ_of n \<noteq> SWITCH \<and> typ_of n \<noteq> CLOCK
      then upd (\<lambda>c. c\<lparr>inputs := js_fill (inputs c) False\<rparr>) n
      else n)"

text \<open>
  Propagation, wire by wire in list order: the wire's cached state and the target's input
  slot take the source's output, \<^verbatim>\<open>source.outputs[k] || false\<close>. A wire with a missing
  endpoint is skipped.
\<close>

fun propagate :: "wire list \<Rightarrow> node list \<Rightarrow> wire list \<times> node list" where
  "propagate [] ns = ([], ns)"
| "propagate (w # ws) ns =
     (case (getNode ns (sourceNodeId w), getNode ns (targetNodeId w)) of
        (Some source, Some target) \<Rightarrow>
          (let val = truthy (js_get (outputs (core source)) (sourcePinIndex w));
               ns' = modifyNode (targetNodeId w)
                       (\<lambda>c. c\<lparr>inputs := js_set (inputs c) (targetPinIndex w) (Val val)\<rparr>) ns
           in case propagate ws ns' of (ws', ns'') \<Rightarrow> (w\<lparr>state := val\<rparr> # ws', ns''))
      | _ \<Rightarrow> (case propagate ws ns of (ws', ns') \<Rightarrow> (w # ws', ns')))"

subsection \<open>One tick\<close>

text \<open>
  \<^verbatim>\<open>tick(timestamp)\<close>, with \<open>-1\<close> forcing a single-shot tick. The result is the engine
  after the call; \<open>Inl\<close> when a callable threw, with the engine as the throw left it.
\<close>

definition gated :: "real \<Rightarrow> engine \<Rightarrow> bool" where
  "gated timestamp s =
     ((\<not> isRunning s \<and> timestamp \<noteq> -1) \<or>
      (timestamp \<noteq> -1 \<and> timestamp - lastTick s < tickRate s))"

definition tick :: "host \<Rightarrow> real \<Rightarrow> engine \<Rightarrow> (js_error \<times> engine) + engine" where
  "tick h timestamp s =
     (if \<not> isRunning s \<and> timestamp \<noteq> -1 then Inr s
      else if timestamp \<noteq> -1 \<and> timestamp - lastTick s < tickRate s then Inr s
      else
        (let tc = tickCount s + 1;
             ns1 = map (updateClock tc) (nodes s);
             ns2 = map resetInputs ns1
         in case propagate (wires s) ns2 of
              (ws, ns3) \<Rightarrow>
                (case computeLogic h (fnCache s) ns3 of
                   (cache, ns4, r) \<Rightarrow>
                     (let s' = s\<lparr>nodes := ns4, wires := ws, lastTick := timestamp,
                                 tickCount := tc, fnCache := cache\<rparr>
                      in case r of None \<Rightarrow> Inr s' | Some e \<Rightarrow> Inl (e, s')))))"

section \<open>History (saveState, undo, redo)\<close>

text \<open>
  A history entry is the string \<^verbatim>\<open>JSON.stringify(this.serialize())\<close>. It is modelled by the
  value \<^verbatim>\<open>JSON.parse\<close> gives back for it: in arrays a hole or \<^verbatim>\<open>undefined\<close> becomes
  \<^verbatim>\<open>null\<close>, a number that is not finite becomes \<^verbatim>\<open>null\<close>, absent fields stay absent.
  Two entries are compared as these values (the order of an object's keys in the string is
  not modelled).
\<close>

definition json_slot :: "'a slot \<Rightarrow> 'a slot" where
  "json_slot v = (case v of Hole \<Rightarrow> Undef | _ \<Rightarrow> v)"

definition json_num :: "jsnum option \<Rightarrow> jsnum option" where
  "json_num v = (case v of Some (Fin r) \<Rightarrow> Some (Fin r) | _ \<Rightarrow> None)"

definition json_core :: "node_core \<Rightarrow> node_core" where
  "json_core c =
     c\<lparr>inputs := map json_slot (inputs c),
       outputs := map json_slot (outputs c),
       width := json_num (width c),
       height := json_num (height c),
       inputMapping := map_option (map json_slot) (inputMapping c),
       outputMapping := map_option (map json_slot) (outputMapping c)\<rparr>"

fun json_node :: "node \<Rightarrow> node" where
  "json_node (Node c i) =
     Node (json_core c) (map_option (\<lambda>(ns, ws). (map json_node ns, ws)) i)"

definition serialize :: "engine \<Rightarrow> snapshot" where
  "serialize s = \<lparr>snap_nodes = nodes s, snap_wires = wires s, snap_viewport = viewport s\<rparr>"

definition stringify :: "snapshot \<Rightarrow> snapshot" where
  "stringify d = d\<lparr>snap_nodes := map json_node (snap_nodes d)\<rparr>"

definition deserialize :: "snapshot \<Rightarrow> engine \<Rightarrow> engine" where
  "deserialize d s =
     s\<lparr>nodes := fold (\<lambda>n ns. setNode ns n) (snap_nodes d) [],
       fnCache := [],
       selectedNodeIds := [],
       selectedWireIds := [],
       wires := snap_wires d,
       viewport := snap_viewport d\<rparr>"

text \<open>The stacks grow at the end of the list: \<^verbatim>\<open>push\<close> appends, \<^verbatim>\<open>shift\<close> drops the head.\<close>

definition saveState :: "engine \<Rightarrow> engine" where
  "saveState s =
     (if isRestoringHistory s then s
      else
        (let st = stringify (serialize s) in
         if historyStack s \<noteq> [] \<and> last (historyStack s) = st then s
         else
           (let pushed = historyStack s @ [st] in
            s\<lparr>historyStack := (if length pushed > maxHistory s then tl pushed else pushed),
              redoStack := []\<rparr>)))"

definition undo :: "engine \<Rightarrow> engine" where
  "undo s =
     (if length (historyStack s) \<le> 1 then s
      else
        (let current = last (historyStack s);
             hist = butlast (historyStack s);
             prev = last hist
         in (deserialize prev
               (s\<lparr>historyStack := hist, redoStack := redoStack s @ [current],
                  isRestoringHistory := True\<rparr>))
            \<lparr>isRestoringHistory := False\<rparr>))"

definition redo :: "engine \<Rightarrow> engine" where
  "redo s =
     (if redoStack s = [] then s
      else
        (let next = last (redoStack s) in
         (deserialize next
            (s\<lparr>redoStack := butlast (redoStack s), historyStack := historyStack s @ [next],
               isRestoringHistory := True\<rparr>))
         \<lparr>isRestoringHistory := False\<rparr>))"

section \<open>Graph operations\<close>

text \<open>
  \<^verbatim>\<open>generateId()\<close> draws a random string; the ids it returns are parameters of the
  operations that call it. \<^verbatim>\<open>triggerUpdate()\<close> only notifies the user interface.
\<close>

definition newNode :: "string \<Rightarrow> node_type \<Rightarrow> vector2 \<Rightarrow> node" where
  "newNode newId t pos =
     Node \<lparr>node_id = newId, ntype = t, position = pos,
            inputs = js_fill (new_Array (getInputCount t None)) False,
            outputs = js_fill (new_Array (getOutputCount t None)) False,
            label = None, color = None, groupId = None,
            width = None, height = None,
            inputCount = None, outputCount = None, truthTable = None,
            ioMap = None, internalState = None,
            inputMapping = None, outputMapping = None,
            compiledFunction = None, equations = None\<rparr> None"

text \<open>\<^verbatim>\<open>addNode(type, pos)\<close>, without a template.\<close>

definition addNode :: "string \<Rightarrow> node_type \<Rightarrow> vector2 \<Rightarrow> engine \<Rightarrow> engine" where
  "addNode newId t pos s =
     (let s1 = saveState s in s1\<lparr>nodes := setNode (nodes s1) (newNode newId t pos)\<rparr>)"

text \<open>The field initialisers of the class, and the constructor with its demo circuit.\<close>

definition initialEngine :: engine where
  "initialEngine =
     \<lparr>nodes = [], wires = [], viewport = \<lparr>vp_x = 0, vp_y = 0, zoom = 1\<rparr>,
      selectedNodeIds = [], selectedWireIds = [],
      isRunning = False, tickRate = 100, lastTick = 0, tickCount = 0,
      fnCache = [], historyStack = [], redoStack = [], maxHistory = 50,
      isRestoringHistory = False\<rparr>"

definition newEngine :: "string \<Rightarrow> string \<Rightarrow> string \<Rightarrow> string \<Rightarrow> engine" where
  "newEngine id1 id2 id3 id4 =
     saveState
       (addNode id4 LIGHT \<lparr>px = 500, py = 150\<rparr>
         (addNode id3 AND \<lparr>px = 300, py = 150\<rparr>
           (addNode id2 SWITCH \<lparr>px = 100, py = 200\<rparr>
             (addNode id1 SWITCH \<lparr>px = 100, py = 100\<rparr> initialEngine))))"

definition touches :: "string \<Rightarrow> wire \<Rightarrow> bool" where
  "touches k w = (sourceNodeId w = k \<or> targetNodeId w = k)"

definition deleteSelected :: "engine \<Rightarrow> engine" where
  "deleteSelected s =
     (if selectedNodeIds s = [] \<and> selectedWireIds s = [] then s
      else
        (let s1 = saveState s;
             s2 = fold (\<lambda>k e.
                     e\<lparr>nodes := map (\<lambda>n. if groupId (core n) = Some k
                                            then upd (\<lambda>c. c\<lparr>groupId := None\<rparr>) n else n)
                                     (deleteNode (nodes e) k),
                       wires := filter (\<lambda>w. \<not> touches k w) (wires e),
                       fnCache := filter (\<lambda>(i, b). i \<noteq> k) (fnCache e)\<rparr>)
                   (selectedNodeIds s1) s1;
             s3 = (if selectedWireIds s2 \<noteq> []
                   then s2\<lparr>wires := filter (\<lambda>w. wire_id w \<notin> set (selectedWireIds s2)) (wires s2)\<rparr>
                   else s2)
         in s3\<lparr>selectedNodeIds := [], selectedWireIds := []\<rparr>))"

text \<open>
  \<^verbatim>\<open>toggleSwitch\<close> flips the switch's output and, while the simulator runs, forces a tick.
\<close>

definition toggleSwitch :: "host \<Rightarrow> string \<Rightarrow> engine \<Rightarrow> (js_error \<times> engine) + engine" where
  "toggleSwitch h nodeId s =
     (case getNode (nodes s) nodeId of
        None \<Rightarrow> Inr s
      | Some n \<Rightarrow>
          if typ_of n = SWITCH then
            (let s1 = s\<lparr>nodes := modifyNode nodeId
                         (\<lambda>c. c\<lparr>outputs := js_set (outputs c) 0
                                   (Val (\<not> truthy (js_get (outputs c) 0)))\<rparr>) (nodes s)\<rparr>
             in if isRunning s1 then tick h (-1) s1 else Inr s1)
          else Inr s)"

section \<open>Pin remapping (updateIOMapping)\<close>

datatype pin_dir = Input | Output

text \<open>\<^verbatim>\<open>xs.indexOf(v)\<close>: the first index holding \<open>v\<close>, \<open>None\<close> for \<open>-1\<close>.\<close>

fun indexOf :: "'a slot list \<Rightarrow> 'a \<Rightarrow> nat option" where
  "indexOf [] v = None"
| "indexOf (x # xs) v = (if x = Val v then Some 0 else map_option Suc (indexOf xs v))"

text \<open>\<^verbatim>\<open>new Array(n).fill(0).map((_, i) => i)\<close>.\<close>

definition identityMapping :: "nat \<Rightarrow> nat slot list" where
  "identityMapping n = map Val [0..<n]"

text \<open>The four statements on the mapping array, the same for both directions.\<close>

definition remap :: "nat slot list \<Rightarrow> nat \<Rightarrow> nat \<Rightarrow> nat slot list" where
  "remap m pinIndex portIndex =
     (let oldPort = js_get m pinIndex;
          otherPinIndex = indexOf m portIndex;
          m1 = (case otherPinIndex of
                  Some q \<Rightarrow> if q \<noteq> pinIndex then js_set m q (to_slot oldPort) else m
                | None \<Rightarrow> m)
      in js_set m1 pinIndex (Val portIndex))"

definition updateIOMapping :: "string \<Rightarrow> pin_dir \<Rightarrow> nat \<Rightarrow> nat \<Rightarrow> engine \<Rightarrow> engine" where
  "updateIOMapping nodeId ty pinIndex portIndex s =
     (case getNode (nodes s) nodeId of
        None \<Rightarrow> s
      | Some node \<Rightarrow>
          if typ_of node \<noteq> IC then s
          else
            (let s1 = saveState s in
             s1\<lparr>nodes := modifyNode nodeId
                 (\<lambda>c. case ty of
                         Input \<Rightarrow>
                           c\<lparr>inputMapping := Some (remap
                               (case inputMapping c of
                                  None \<Rightarrow> identityMapping (count_or0 (inputCount c))
                                | Some m \<Rightarrow> m) pinIndex portIndex)\<rparr>
                       | Output \<Rightarrow>
                           c\<lparr>outputMapping := Some (remap
                               (case outputMapping c of
                                  None \<Rightarrow> identityMapping (count_or0 (outputCount c))
                                | Some m \<Rightarrow> m) pinIndex portIndex)\<rparr>)
                 (nodes s1)\<rparr>))"

text \<open>
  The mapping in force for a direction (the identity when the field is unset, as the tick
  and the first remapping take it), and the declared count.
\<close>

definition countOf :: "pin_dir \<Rightarrow> node_core \<Rightarrow> nat" where
  "countOf d c = (case d of Input \<Rightarrow> count_or0 (inputCount c)
                  | Output \<Rightarrow> count_or0 (outputCount c))"

definition mappingOf :: "pin_dir \<Rightarrow> node_core \<Rightarrow> nat slot list" where
  "mappingOf d c =
     (case (case d of Input \<Rightarrow> inputMapping c | Output \<Rightarrow> outputMapping c) of
        None \<Rightarrow> identityMapping (countOf d c)
      | Some m \<Rightarrow> m)"

text \<open>A permutation of \<open>0..n-1\<close>: every port exactly once, no hole and no gap.\<close>

definition is_permutation :: "nat \<Rightarrow> nat slot list \<Rightarrow> bool" where
  "is_permutation n m = (mset m = mset (identityMapping n))"

text \<open>A sequence of remapping calls on one node.\<close>

fun remapAll :: "string \<Rightarrow> (pin_dir \<times> nat \<times> nat) list \<Rightarrow> engine \<Rightarrow> engine" where
  "remapAll k [] s = s"
| "remapAll k ((d, p, v) # calls) s = remapAll k calls (updateIOMapping k d p v s)"

section \<open>Numbers and strings for pack and unpack\<close>

text \<open>Arithmetic on numbers that may be infinite, as JavaScript computes it.\<close>

fun js_neg :: "jsnum \<Rightarrow> jsnum" where
  "js_neg (Fin a) = Fin (- a)"
| "js_neg PosInf = NegInf"
| "js_neg NegInf = PosInf"
| "js_neg NaN = NaN"

fun js_plus :: "jsnum \<Rightarrow> jsnum \<Rightarrow> jsnum" where
  "js_plus NaN _ = NaN"
| "js_plus _ NaN = NaN"
| "js_plus (Fin a) (Fin b) = Fin (a + b)"
| "js_plus PosInf NegInf = NaN"
| "js_plus NegInf PosInf = NaN"
| "js_plus PosInf _ = PosInf"
| "js_plus _ PosInf = PosInf"
| "js_plus NegInf _ = NegInf"
| "js_plus _ NegInf = NegInf"

definition js_minus :: "jsnum \<Rightarrow> jsnum \<Rightarrow> jsnum" where
  "js_minus a b = js_plus a (js_neg b)"

fun js_half :: "jsnum \<Rightarrow> jsnum" where
  "js_half (Fin a) = Fin (a / 2)"
| "js_half v = v"

fun js_min :: "jsnum \<Rightarrow> jsnum \<Rightarrow> jsnum" where
  "js_min NaN _ = NaN"
| "js_min _ NaN = NaN"
| "js_min NegInf _ = NegInf"
| "js_min _ NegInf = NegInf"
| "js_min PosInf b = b"
| "js_min a PosInf = a"
| "js_min (Fin a) (Fin b) = Fin (min a b)"

fun js_max :: "jsnum \<Rightarrow> jsnum \<Rightarrow> jsnum" where
  "js_max NaN _ = NaN"
| "js_max _ NaN = NaN"
| "js_max PosInf _ = PosInf"
| "js_max _ PosInf = PosInf"
| "js_max NegInf b = b"
| "js_max a NegInf = a"
| "js_max (Fin a) (Fin b) = Fin (max a b)"

text \<open>\<^verbatim>\<open>v || d\<close> for an optional number and an optional string.\<close>

definition num_or :: "jsnum option \<Rightarrow> real \<Rightarrow> jsnum" where
  "num_or v d = (case v of None \<Rightarrow> Fin d | Some NaN \<Rightarrow> Fin d
                 | Some (Fin a) \<Rightarrow> if a = 0 then Fin d else Fin a
                 | Some i \<Rightarrow> i)"

definition str_or :: "string option \<Rightarrow> string \<Rightarrow> string" where
  "str_or v d = (case v of None \<Rightarrow> d | Some t \<Rightarrow> if t = [] then d else t)"

text \<open>\<^verbatim>\<open>getNodeDimensions\<close>, with \<open>DEF_GATE_W = 60\<close> and \<open>DEF_GATE_H = 40\<close>.\<close>

definition getNodeDimensions :: "node \<Rightarrow> jsnum \<times> jsnum" where
  "getNodeDimensions n =
     (if typ_of n = BUFFER \<or> typ_of n = NOT then (Fin 40, Fin 30)
      else if typ_of n = GROUP \<or> typ_of n = IC
           then (num_or (width (core n)) 100, num_or (height (core n)) 100)
      else (Fin 60, Fin 40))"

text \<open>Decimal numerals, \<^verbatim>\<open>xs.join(sep)\<close> and \<^verbatim>\<open>id.replace(/-/g, '_')\<close>.\<close>

fun showNat :: "nat \<Rightarrow> string" where
  "showNat n = (if n < 10 then [''0123456789'' ! n]
                else showNat (n div 10) @ [''0123456789'' ! (n mod 10)])"

declare showNat.simps [simp del]

definition showInt :: "int \<Rightarrow> string" where
  "showInt i = (if i < 0 then ''-'' @ showNat (nat (- i)) else showNat (nat i))"

fun join :: "string \<Rightarrow> string list \<Rightarrow> string" where
  "join sep [] = []"
| "join sep [a] = a"
| "join sep (a # b # bs) = a @ sep @ join sep (b # bs)"

definition underscored :: "string \<Rightarrow> string" where
  "underscored k = map (\<lambda>ch. if ch = CHR ''-'' then CHR ''_'' else ch) k"

text \<open>\<^verbatim>\<open>xs.indexOf(n)\<close> on a list of nodes (nodes are told apart by their ids).\<close>

fun nodeIndex :: "node list \<Rightarrow> string \<Rightarrow> int" where
  "nodeIndex [] k = -1"
| "nodeIndex (n # ns) k =
     (if nid n = k then 0 else (let r = nodeIndex ns k in if r < 0 then -1 else r + 1))"

text \<open>\<^verbatim>\<open>[...xs]\<close>: a copy in which a hole reads as it would, \<^verbatim>\<open>undefined\<close>.\<close>

definition spread :: "'a slot list \<Rightarrow> 'a slot list" where
  "spread xs = map json_slot xs"

text \<open>\<^verbatim>\<open>set.add(k)\<close> on a set kept in insertion order.\<close>

definition setAdd :: "string list \<Rightarrow> string \<Rightarrow> string list" where
  "setAdd ks k = (if k \<in> set ks then ks else ks @ [k])"

section \<open>Pack and unpack\<close>

subsection \<open>The generated code body (packGroupToIC)\<close>

definition varName :: "string \<Rightarrow> string" where
  "varName k = ''v_'' @ underscored k"

definition funcName :: "string \<Rightarrow> string" where
  "funcName k = ''func_'' @ underscored k"

text \<open>\<^verbatim>\<open>varMap.get(id)\<close>: only the state nodes have a variable.\<close>

definition varMapGet :: "node list \<Rightarrow> string \<Rightarrow> string option" where
  "varMapGet stateNodes k = (if k \<in> nid ` set stateNodes then Some (varName k) else None)"

text \<open>A template literal prints a missing variable as \<^verbatim>\<open>undefined\<close>.\<close>

definition shown :: "string option \<Rightarrow> string" where
  "shown v = (case v of None \<Rightarrow> ''undefined'' | Some t \<Rightarrow> t)"

text \<open>The expression for the source of a wire; \<^verbatim>\<open>'0'\<close> when there is no wire.\<close>

definition sourceExpr :: "node list \<Rightarrow> node list \<Rightarrow> node list \<Rightarrow> wire option \<Rightarrow> string" where
  "sourceExpr internalNodes inputNodes stateNodes wo =
     (case wo of
        None \<Rightarrow> ''0''
      | Some w \<Rightarrow>
         (case find (\<lambda>x. nid x = sourceNodeId w) internalNodes of
            Some src \<Rightarrow>
              if typ_of src = SWITCH
                then ''(inputs['' @ showInt (nodeIndex inputNodes (nid src)) @ ''] ? 1 : 0)''
              else if typ_of src = IC
                then shown (varMapGet stateNodes (nid src)) @ ''_out[''
                       @ showNat (sourcePinIndex w) @ '']''
              else str_or (varMapGet stateNodes (sourceNodeId w)) ''0''
          | None \<Rightarrow> str_or (varMapGet stateNodes (sourceNodeId w)) ''0''))"

definition nestedLines :: "node \<Rightarrow> string list" where
  "nestedLines ic =
     (if has_code (core ic) then
        [''const '' @ funcName (nid ic) @ '' = (inputs, state) => {'',
         the (compiledFunction (core ic)),
         ''};'']
      else
        [''const '' @ funcName (nid ic) @ '' = (inputs, state) => ({ outputs: new Array(''
           @ showNat (count_or0 (outputCount (core ic)))
           @ '').fill(0), state: state || [] });''])"

definition unpackStateLines :: "node \<times> nat \<Rightarrow> string list" where
  "unpackStateLines ni =
     (case ni of (n, i) \<Rightarrow>
        (let v = varName (nid n) in
         if typ_of n = IC then
           [''let '' @ v @ ''_state = state['' @ showNat i @ ''] !== undefined ? state[''
              @ showNat i @ ''] : [];'',
            ''let '' @ v @ ''_out = new Array('' @ showNat (count_or0 (outputCount (core n)))
              @ '').fill(0);'']
         else
           [''let '' @ v @ '' = state['' @ showNat i @ ''] !== undefined ? state[''
              @ showNat i @ ''] : 0;'']))"

definition loopLines :: "node list \<Rightarrow> node list \<Rightarrow> node list \<Rightarrow> wire list \<Rightarrow> node \<Rightarrow> string list" where
  "loopLines internalNodes inputNodes stateNodes internalWires n =
     (let v = varName (nid n);
          myInWires = sort_key targetPinIndex
                        (filter (\<lambda>w. targetNodeId w = nid n) internalWires);
          getInVal = (\<lambda>idx. sourceExpr internalNodes inputNodes stateNodes
                               (find (\<lambda>wi. targetPinIndex wi = idx) myInWires))
      in if typ_of n = IC then
           [''  const res_'' @ v @ '' = '' @ funcName (nid n) @ ''([''
              @ join '', '' (map getInVal [0..<count_or0 (inputCount (core n))])
              @ ''], '' @ v @ ''_state);'',
            ''  '' @ v @ ''_state = res_'' @ v @ ''.state;'',
            ''  '' @ v @ ''_out = res_'' @ v @ ''.outputs;'']
         else
           [''  '' @ v @ '' = '' @
              (case typ_of n of
                 AND \<Rightarrow> ''(('' @ getInVal 0 @ '' + '' @ getInVal 1 @ '') == 2 ? 1 : 0)''
               | OR \<Rightarrow> ''(('' @ getInVal 0 @ '' + '' @ getInVal 1 @ '') > 0 ? 1 : 0)''
               | NOT \<Rightarrow> ''('' @ getInVal 0 @ '' == 0 ? 1 : 0)''
               | NAND \<Rightarrow> ''(('' @ getInVal 0 @ '' + '' @ getInVal 1 @ '') < 2 ? 1 : 0)''
               | XOR \<Rightarrow> ''('' @ getInVal 0 @ '' != '' @ getInVal 1 @ '' ? 1 : 0)''
               | BUFFER \<Rightarrow> getInVal 0
               | _ \<Rightarrow> ''0'')
              @ '';''])"

definition compiledFnBody :: "node list \<Rightarrow> node list \<Rightarrow> node list \<Rightarrow> wire list \<Rightarrow> string" where
  "compiledFnBody internalNodes inputNodes outputNodes internalWires =
     (let stateNodes = filter (\<lambda>n. typ_of n \<noteq> SWITCH) internalNodes;
          nestedICs = filter (\<lambda>n. typ_of n = IC) internalNodes;
          outList = map (\<lambda>ou. sourceExpr internalNodes inputNodes stateNodes
                                 (find (\<lambda>wi. targetNodeId wi = nid ou) internalWires))
                        outputNodes
      in join [CHR 0x0A]
           (concat (map nestedLines nestedICs)
            @ [''// Unpack state'']
            @ concat (map unpackStateLines (zip stateNodes [0..<length stateNodes]))
            @ [''for(let iter=0; iter<10; iter++) {'']
            @ concat (map (loopLines internalNodes inputNodes stateNodes internalWires) stateNodes)
            @ [''}'']
            @ [''const newState = ['' @
                 join '', '' (map (\<lambda>n. if typ_of n = IC then varName (nid n) @ ''_state''
                                        else varName (nid n)) stateNodes)
                 @ ''];'']
            @ [''return { outputs: ['' @ join '', '' outList @ ''], state: newState };'']))"

subsection \<open>packGroupToIC\<close>

text \<open>The local \<^verbatim>\<open>groupId\<close> is written \<open>grpId\<close>, apart from the field of that name.\<close>

definition isInternal :: "node list \<Rightarrow> string \<Rightarrow> bool" where
  "isInternal internalNodes k = (k \<in> nid ` set internalNodes)"

text \<open>The IC node that replaces the group.\<close>

definition icNodeOf :: "string \<Rightarrow> node \<Rightarrow> node list \<Rightarrow> node list \<Rightarrow> node list \<Rightarrow> wire list \<Rightarrow> node" where
  "icNodeOf grpId groupNode internalNodes inputNodes outputNodes internalWires =
     (let stateNodes = filter (\<lambda>n. typ_of n \<noteq> SWITCH) internalNodes;
          storedNodes = map (\<lambda>n. upd (\<lambda>c. c\<lparr>position :=
                  \<lparr>px = px (position c) - px (position (core groupNode)),
                   py = py (position c) - py (position (core groupNode))\<rparr>,
                groupId := None\<rparr>) n) internalNodes
      in Node
           \<lparr>node_id = grpId, ntype = IC,
            position = position (core groupNode),
            inputs = js_fill (new_Array (length inputNodes)) False,
            outputs = js_fill (new_Array (length outputNodes)) False,
            label = Some (str_or (label (core groupNode)) ''Chip''),
            color = None, groupId = None,
            width = Some (Fin 100),
            height = Some (Fin (real (max (length inputNodes) (length outputNodes)) * 20 + 40)),
            inputCount = Some (length inputNodes),
            outputCount = Some (length outputNodes),
            truthTable = None,
            ioMap = Some \<lparr>io_inputs =
                 map (\<lambda>(n, i). str_or (label (core n)) (''In '' @ showNat i))
                     (zip inputNodes [0..<length inputNodes]),
               io_outputs =
                 map (\<lambda>(n, i). str_or (label (core n)) (''Out '' @ showNat i))
                     (zip outputNodes [0..<length outputNodes])\<rparr>,
            internalState = Some (JArr (map (\<lambda>n.
                 if typ_of n = IC
                 then (case internalState (core n) of
                         None \<Rightarrow> JArr []
                       | Some st \<Rightarrow> if json_truthy st then st else JArr [])
                 else JNum 0) stateNodes)),
            inputMapping = Some (identityMapping (length inputNodes)),
            outputMapping = Some (identityMapping (length outputNodes)),
            compiledFunction =
              Some (compiledFnBody internalNodes inputNodes outputNodes internalWires),
            equations = Some []\<rparr>
           (Some (storedNodes, internalWires)))"

definition packGroupToIC :: "engine \<Rightarrow> engine" where
  "packGroupToIC s =
     (case find (\<lambda>k. map_option typ_of (getNode (nodes s) k) = Some GROUP) (selectedNodeIds s) of
        None \<Rightarrow> s
      | Some grpId \<Rightarrow>
         if grpId = [] then s
         else
          (case getNode (nodes s) grpId of
             None \<Rightarrow> s
           | Some groupNode \<Rightarrow>
              (let internalNodes = filter (\<lambda>n. groupId (core n) = Some grpId) (nodes s);
                   inputNodes = sort_key (\<lambda>n. py (position (core n)))
                                  (filter (\<lambda>n. typ_of n = SWITCH) internalNodes);
                   outputNodes = sort_key (\<lambda>n. py (position (core n)))
                                   (filter (\<lambda>n. typ_of n = LIGHT) internalNodes)
               in if inputNodes = [] \<and> outputNodes = [] then s
                  else
                   (let s1 = saveState s;
                        internalWires = filter (\<lambda>w. isInternal internalNodes (sourceNodeId w) \<and>
                                                     isInternal internalNodes (targetNodeId w))
                                               (wires s1);
                        icNode = icNodeOf grpId groupNode internalNodes inputNodes outputNodes
                                   internalWires;
                        remaining = deleteNode
                                      (filter (\<lambda>n. \<not> isInternal internalNodes (nid n)) (nodes s1))
                                      grpId
                    in s1\<lparr>nodes := setNode remaining icNode,
                          wires := filter (\<lambda>w. \<not> isInternal internalNodes (sourceNodeId w) \<and>
                                               \<not> isInternal internalNodes (targetNodeId w))
                                          (wires s1),
                          selectedNodeIds := [grpId]\<rparr>))))"

subsection \<open>unpackICToGroup\<close>

text \<open>
  The bounding box of the stored nodes, started at \<open>\<plusminus>Infinity\<close>:
  \<open>(minX, minY, maxX, maxY)\<close>.
\<close>

definition boundingBox :: "node list \<Rightarrow> jsnum \<times> jsnum \<times> jsnum \<times> jsnum" where
  "boundingBox ns =
     fold (\<lambda>n (minX, minY, maxX, maxY).
             (case getNodeDimensions n of (w, h) \<Rightarrow>
               (js_min minX (js_minus (Fin (px (position (core n)))) (js_half w)),
                js_min minY (js_minus (Fin (py (position (core n)))) (js_half h)),
                js_max maxX (js_plus (Fin (px (position (core n)))) (js_half w)),
                js_max maxY (js_plus (Fin (py (position (core n)))) (js_half h)))))
          ns (PosInf, PosInf, NegInf, NegInf)"

text \<open>
  \<open>gen\<close> gives the results of the successive calls of \<^verbatim>\<open>generateId()\<close>: call 0 names the
  group, the next calls name the stored nodes in order, the calls after those the stored
  wires that are kept.
\<close>

definition unpackICToGroup :: "(nat \<Rightarrow> string) \<Rightarrow> engine \<Rightarrow> engine" where
  "unpackICToGroup gen s =
     (case find (\<lambda>k. map_option typ_of (getNode (nodes s) k) = Some IC) (selectedNodeIds s) of
        None \<Rightarrow> s
      | Some icId \<Rightarrow>
         if icId = [] then s
         else
          (case getNode (nodes s) icId of
             None \<Rightarrow> s
           | Some icNode \<Rightarrow>
              (case internals icNode of
                 None \<Rightarrow> s
               | Some (storedNodes, storedWires) \<Rightarrow>
                  (let s1 = saveState s;
                       grpId = gen 0;
                       groupNode =
                         (case boundingBox storedNodes of (minX, minY, maxX, maxY) \<Rightarrow>
                            upd (\<lambda>c. c\<lparr>inputs := [], outputs := [],
                                        width := Some (js_plus (js_minus maxX minX) (Fin 80)),
                                        height := Some (js_plus (js_minus maxY minY) (Fin 80)),
                                        label := Some (str_or (label (core icNode)) ''Unpacked'')\<rparr>)
                                (newNode grpId GROUP (position (core icNode))));
                       newIds = map (\<lambda>i. gen (i + 1)) [0..<length storedNodes];
                       idMap = map_of (rev (zip (map nid storedNodes) newIds));
                       newNodes = map (\<lambda>(n, newId).
                            upd (\<lambda>c. c\<lparr>node_id := newId, groupId := Some grpId,
                                   position := \<lparr>px = px (position (core icNode)) + px (position c),
                                                py = py (position (core icNode)) + py (position c)\<rparr>,
                                   inputs := spread (inputs c),
                                   outputs := spread (outputs c)\<rparr>) n)
                          (zip storedNodes newIds);
                       keptWires = filter (\<lambda>w. idMap (sourceNodeId w) \<noteq> None \<and>
                                                idMap (targetNodeId w) \<noteq> None) storedWires;
                       newWires = map (\<lambda>(w, j).
                            w\<lparr>wire_id := gen (length storedNodes + 1 + j),
                              sourceNodeId := the (idMap (sourceNodeId w)),
                              targetNodeId := the (idMap (targetNodeId w)),
                              state := False\<rparr>)
                          (zip keptWires [0..<length keptWires]);
                       ns1 = fold (\<lambda>n ns. setNode ns n) newNodes (setNode (nodes s1) groupNode);
                       ns2 = deleteNode ns1 icId
                   in s1\<lparr>nodes := ns2,
                         wires := wires s1 @ newWires,
                         fnCache := filter (\<lambda>(i, b). i \<noteq> icId) (fnCache s1),
                         selectedNodeIds :=
                           fold (\<lambda>n ks. if groupId (core n) = Some grpId
                                         then setAdd ks (nid n) else ks) ns2 [grpId]\<rparr>))))"

section \<open>Library import (storage/libraryStore)\<close>

text \<open>
  \<^verbatim>\<open>importLibraryFromJSON\<close> runs against the browser: \<^verbatim>\<open>JSON.parse\<close>, the database
  connection, \<^verbatim>\<open>db.put('library', item)\<close>, \<^verbatim>\<open>generateId()\<close> and \<^verbatim>\<open>Date.now()\<close> are the
  host's and are parameters of the model. The store has an abstract type \<open>'db\<close>; a write
  takes the store and the item with its new id and timestamp and gives the store after the
  write, or \<open>None\<close> when the write is rejected. The calls are awaited one after the other.
\<close>

record 'db storage_host =
  JSON_parse :: "string \<Rightarrow> json option"
  getDB :: bool
  db_put :: "'db \<Rightarrow> json \<times> string \<times> real \<Rightarrow> 'db option"
  generateId :: "nat \<Rightarrow> string"
  Date_now :: "nat \<Rightarrow> real"

datatype import_error = SyntaxError | TypeError | StorageError

text \<open>
  An item that can take the properties \<^verbatim>\<open>id\<close> and \<^verbatim>\<open>createdAt\<close>: an object or an array.
  Assigning a property to \<^verbatim>\<open>null\<close> or (in module code, which is strict) to a number, a
  string or a boolean throws a TypeError.
\<close>

fun assignable :: "json \<Rightarrow> bool" where
  "assignable (JObj _) = True"
| "assignable (JArr _) = True"
| "assignable _ = False"

text \<open>
  The loop over the items, item \<open>k\<close> first: the result is the number of items imported and
  the store, or the error and the store as the failure left it.
\<close>

fun importItems :: "'db storage_host \<Rightarrow> nat \<Rightarrow> json list \<Rightarrow> 'db \<Rightarrow>
    (import_error \<times> 'db) + (nat \<times> 'db)" where
  "importItems h k [] db = Inr (k, db)"
| "importItems h k (item # rest) db =
     (if assignable item then
        (case db_put h db (item, generateId h k, Date_now h k) of
           None \<Rightarrow> Inl (StorageError, db)
         | Some db' \<Rightarrow> importItems h (Suc k) rest db')
      else Inl (TypeError, db))"

text \<open>
  \<^verbatim>\<open>for (const item of items)\<close> iterates an array; a string is iterated character by
  character (each a primitive, so a non-empty string fails at its first character); any
  other value is not iterable.
\<close>

definition importLibraryFromJSON :: "'db storage_host \<Rightarrow> string \<Rightarrow> 'db \<Rightarrow>
    (import_error \<times> 'db) + (nat \<times> 'db)" where
  "importLibraryFromJSON h text db =
     (case JSON_parse h text of
        None \<Rightarrow> Inl (SyntaxError, db)
      | Some doc \<Rightarrow>
          if \<not> getDB h then Inl (StorageError, db)
          else (case doc of
                  JArr items \<Rightarrow> importItems h 0 items db
                | JStr t \<Rightarrow> if t = [] then Inr (0, db) else Inl (TypeError, db)
                | _ \<Rightarrow> Inl (TypeError, db)))"

text \<open>Writing a list of items in order, item \<open>k\<close> first; \<open>None\<close> when one of them fails.\<close>

fun putAll :: "'db storage_host \<Rightarrow> nat \<Rightarrow> json list \<Rightarrow> 'db \<Rightarrow> 'db option" where
  "putAll h k [] db = Some db"
| "putAll h k (item # rest) db =
     (if assignable item then
        (case db_put h db (item, generateId h k, Date_now h k) of
           None \<Rightarrow> None
         | Some db' \<Rightarrow> putAll h (Suc k) rest db')
      else None)"

text \<open>
  A host for examples: the store is the list of the items written, a write replaces the
  item with the same id or appends, and the parser knows one document.
\<close>

definition memoryPut :: "(json \<times> string \<times> real) list \<Rightarrow> json \<times> string \<times> real \<Rightarrow>
    (json \<times> string \<times> real) list option" where
  "memoryPut db item = Some (filter (\<lambda>old. fst (snd old) \<noteq> fst (snd item)) db @ [item])"

definition brokenDocument :: string where
  "brokenDocument = ''[{\"name\":\"Adder\"},null]''"

definition memoryHost :: "(json \<times> string \<times> real) list storage_host" where
  "memoryHost =
     \<lparr>JSON_parse = (\<lambda>t. if t = brokenDocument
                          then Some (JArr [JObj [(''name'', JStr ''Adder'')], JNull])
                          else if t = ''[{\"name\":\"Adder\"},{\"name\":\"Latch\"}]''
                          then Some (JArr [JObj [(''name'', JStr ''Adder'')],
                                           JObj [(''name'', JStr ''Latch'')]])
                          else None),
      getDB = True,
      db_put = memoryPut,
      generateId = (\<lambda>k. ''id'' @ showNat k),
      Date_now = (\<lambda>k. 1000 + real k)\<rparr>"

section \<open>Calls in sequence and example circuits\<close>

text \<open>A call that may have thrown, followed by another; and the engine a call left.\<close>

definition thenDo :: "(js_error \<times> engine) + engine \<Rightarrow>
    (engine \<Rightarrow> (js_error \<times> engine) + engine) \<Rightarrow> (js_error \<times> engine) + engine" where
  "thenDo r f = (case r of Inl e \<Rightarrow> Inl e | Inr s \<Rightarrow> f s)"

definition after :: "(js_error \<times> engine) + engine \<Rightarrow> engine" where
  "after r = (case r of Inl (e, s) \<Rightarrow> s | Inr s \<Rightarrow> s)"

fun forcedTicks :: "host \<Rightarrow> nat \<Rightarrow> engine \<Rightarrow> (js_error \<times> engine) + engine" where
  "forcedTicks h 0 s = Inr s"
| "forcedTicks h (Suc k) s = thenDo (forcedTicks h k s) (tick h (-1))"

text \<open>
  Releasing the pointer on an input pin while wiring (Canvas, \<^verbatim>\<open>handlePointerUp\<close>): the
  wire is pushed, a checkpoint is saved and one tick is forced.
\<close>

definition pushWire :: "string \<Rightarrow> string \<times> nat \<Rightarrow> string \<times> nat \<Rightarrow> engine \<Rightarrow> engine" where
  "pushWire newId start target s =
     saveState (s\<lparr>wires := wires s @
        [\<lparr>wire_id = newId, sourceNodeId = fst start, sourcePinIndex = snd start,
          targetNodeId = fst target, targetPinIndex = snd target, state = False\<rparr>]\<rparr>)"

definition connectPins :: "host \<Rightarrow> string \<Rightarrow> string \<times> nat \<Rightarrow> string \<times> nat \<Rightarrow> engine \<Rightarrow>
    (js_error \<times> engine) + engine" where
  "connectPins h newId start target s =
     (if fst target \<noteq> fst start then tick h (-1) (pushWire newId start target s)
      else Inr s)"

text \<open>A host on which no code body compiles.\<close>

definition noHost :: host where
  "noHost body = None"

text \<open>
  The demo circuit of the constructor, wired as two switches into the AND gate and the AND
  gate into the light.
\<close>

definition demoEngine :: engine where
  "demoEngine = newEngine ''sw1'' ''sw2'' ''and'' ''light''"

definition demoWired :: "(js_error \<times> engine) + engine" where
  "demoWired =
     thenDo (thenDo (connectPins noHost ''w1'' (''sw1'', 0) (''and'', 0) demoEngine)
                    (connectPins noHost ''w2'' (''sw2'', 0) (''and'', 1)))
            (connectPins noHost ''w3'' (''and'', 0) (''light'', 0))"

definition demoSwitchedOn :: "(js_error \<times> engine) + engine" where
  "demoSwitchedOn =
     thenDo (thenDo demoWired (toggleSwitch noHost ''sw1'')) (toggleSwitch noHost ''sw2'')"

text \<open>The demo circuit with a clock added and wired to the light, before any tick.\<close>

definition clockEngine :: engine where
  "clockEngine = addNode ''clk'' CLOCK \<lparr>px = 100, py = 300\<rparr> demoEngine"

definition clockWired :: engine where
  "clockWired = pushWire ''w1'' (''clk'', 0) (''light'', 0) clockEngine"

text \<open>
  Two IC nodes: one whose code body no host accepts, and one with only a truth table that
  has no row for its inputs.
\<close>

definition brokenIC :: node where
  "brokenIC = upd (\<lambda>c. c\<lparr>compiledFunction := Some ''return {''\<rparr>)
                (newNode ''ic'' IC \<lparr>px = 0, py = 0\<rparr>)"

definition tableIC :: node where
  "tableIC = upd (\<lambda>c. c\<lparr>truthTable := Some [(''11'', [1])],
                          inputs := [Val True, Val False]\<rparr>)
               (newNode ''ic'' IC \<lparr>px = 0, py = 0\<rparr>)"

text \<open>Reading pin \<open>k\<close> of the node stored under an id (\<open>None\<close>: no node, or no boolean there).\<close>

definition inputOf :: "engine \<Rightarrow> string \<Rightarrow> nat \<Rightarrow> bool option" where
  "inputOf s k j = (case getNode (nodes s) k of None \<Rightarrow> None
                    | Some n \<Rightarrow> js_get (inputs (core n)) j)"

definition outputOf :: "engine \<Rightarrow> string \<Rightarrow> nat \<Rightarrow> bool option" where
  "outputOf s k j = (case getNode (nodes s) k of None \<Rightarrow> None
                     | Some n \<Rightarrow> js_get (outputs (core n)) j)"

text \<open>An engine holding one IC with three input pins and two output pins, mappings unset.\<close>

definition icEngine :: engine where
  "icEngine =
     initialEngine\<lparr>nodes :=
       [upd (\<lambda>c. c\<lparr>inputCount := Some 3, outputCount := Some 2,
                     inputs := js_fill (new_Array 3) False,
                     outputs := js_fill (new_Array 2) False\<rparr>)
          (newNode ''chip'' IC \<lparr>px = 0, py = 0\<rparr>)]\<rparr>"

text \<open>
  The demo circuit, wired, with its four nodes in a group: the state
  \<^verbatim>\<open>createGroupFromSelection\<close> leaves when all four nodes are selected (a GROUP node around
  them, their \<^verbatim>\<open>groupId\<close> set, the group and its members selected).
\<close>

definition demoGrouped :: engine where
  "demoGrouped =
     (let s = after demoWired in
      s\<lparr>nodes := map (upd (\<lambda>c. c\<lparr>groupId := Some ''grp''\<rparr>)) (nodes s) @
           [upd (\<lambda>c. c\<lparr>width := Some (Fin 520), height := Some (Fin 200),
                         label := Some ''Group''\<rparr>)
              (newNode ''grp'' GROUP \<lparr>px = 300, py = 150\<rparr>)],
        selectedNodeIds := [''grp'', ''sw1'', ''sw2'', ''and'', ''light'']\<rparr>)"

text \<open>Ids for the unpacked group, its nodes and its wires.\<close>

definition demoIds :: "nat \<Rightarrow> string" where
  "demoIds i = [''grp2'', ''n1'', ''n2'', ''n3'', ''n4'', ''x1'', ''x2'', ''x3'', ''x4''] ! i"

definition demoPacked :: engine where
  "demoPacked = packGroupToIC demoGrouped"

definition demoUnpacked :: engine where
  "demoUnpacked = unpackICToGroup demoIds demoPacked"

definition demoUnpackedOn :: "(js_error \<times> engine) + engine" where
  "demoUnpackedOn =
     thenDo (toggleSwitch noHost ''n1'' demoUnpacked) (toggleSwitch noHost ''n2'')"

definition demoUnpackedRunningOn :: "(js_error \<times> engine) + engine" where
  "demoUnpackedRunningOn =
     thenDo (toggleSwitch noHost ''n1'' (demoUnpacked\<lparr>isRunning := True\<rparr>))
            (toggleSwitch noHost ''n2'')"

text \<open>
  The packed chip with a third switch wired to its first input pin, the chip selected:
  the state before an unpack that has an outside wire to lose.
\<close>

definition packedWithSwitch :: engine where
  "packedWithSwitch =
     (after (connectPins noHost ''w4'' (''sw3'', 0) (''grp'', 0)
               (addNode ''sw3'' SWITCH \<lparr>px = 100, py = 300\<rparr> demoPacked)))
     \<lparr>selectedNodeIds := [''grp'']\<rparr>"

text \<open>No wire with an endpoint outside the node map.\<close>

definition noDangling :: "engine \<Rightarrow> bool" where
  "noDangling s =
     list_all (\<lambda>w. getNode (nodes s) (sourceNodeId w) \<noteq> None \<and>
                    getNode (nodes s) (targetNodeId w) \<noteq> None) (wires s)"

text \<open>The pin-to-pin connections of a wire list, with node ids renamed by \<open>\<rho>\<close>.\<close>

definition connections :: "(string \<Rightarrow> string) \<Rightarrow> wire list \<Rightarrow> (string \<times> nat \<times> string \<times> nat) list" where
  "connections \<rho> ws =
     map (\<lambda>w. (\<rho> (sourceNodeId w), sourcePinIndex w, \<rho> (targetNodeId w), targetPinIndex w)) ws"

definition demoRenaming :: "string \<Rightarrow> string" where
  "demoRenaming k =
     (if k = ''sw1'' then ''n1'' else if k = ''sw2'' then ''n2''
      else if k = ''and'' then ''n3'' else if k = ''light'' then ''n4'' else k)"

definition countType :: "node_type \<Rightarrow> engine \<Rightarrow> nat" where
  "countType t s = length (filter (\<lambda>n. typ_of n = t) (nodes s))"

text \<open>
  The wired demo circuit with the first switch on and a fourth wire, from the second switch
  (off) to the AND gate's input pin 0, which the first switch already drives.
\<close>

definition doubleWired :: engine where
  "doubleWired =
     pushWire ''w4'' (''sw2'', 0) (''and'', 0) (after (thenDo demoWired (toggleSwitch noHost ''sw1'')))"

text \<open>
  A host whose callable for the body \<^verbatim>\<open>throw 0\<close> throws when it is called, and an engine
  holding an IC with that body followed by a NOT gate.
\<close>

definition throwingHost :: host where
  "throwingHost body = (if body = ''throw 0'' then Some (\<lambda>inputs state. Throws) else None)"

definition throwingIC :: node where
  "throwingIC = upd (\<lambda>c. c\<lparr>compiledFunction := Some ''throw 0''\<rparr>)
                  (newNode ''ic'' IC \<lparr>px = 0, py = 0\<rparr>)"

definition throwingEngine :: engine where
  "throwingEngine =
     initialEngine\<lparr>nodes := [throwingIC, newNode ''not'' NOT \<lparr>px = 100, py = 0\<rparr>]\<rparr>"

text \<open>A supply of ids that are pairwise different: \<^verbatim>\<open>#\<close>, \<^verbatim>\<open>##\<close>, \<^verbatim>\<open>###\<close>, and so on.\<close>

definition hashIds :: "nat \<Rightarrow> string" where
  "hashIds i = replicate (i + 1) (CHR ''#'')"

section \<open>Auxiliary notions for the proofs\<close>

text \<open>Two nodes that differ at most in their input slots.\<close>

definition strip_inputs :: "node \<Rightarrow> node" where
  "strip_inputs n = upd (\<lambda>c. c\<lparr>inputs := []\<rparr>) n"

definition same_but_inputs :: "node \<Rightarrow> node \<Rightarrow> bool" where
  "same_but_inputs a b = (strip_inputs a = strip_inputs b)"

text \<open>
  The members of a group: the nodes whose \<^verbatim>\<open>groupId\<close> is the group's id (the
  \<^verbatim>\<open>internalNodes\<close> of \<^verbatim>\<open>packGroupToIC\<close>).
\<close>

definition members :: "string \<Rightarrow> engine \<Rightarrow> node list" where
  "members g s = filter (\<lambda>n. groupId (core n) = Some g) (nodes s)"

text \<open>
  The renaming of node ids by a pack followed by an unpack that draws its ids from \<open>gen\<close>:
  member \<open>i\<close> of the group gets the id \<open>gen (i + 1)\<close> (\<open>gen 0\<close> goes to the new group node),
  every other id stays. This is the \<^verbatim>\<open>idMap\<close> of \<^verbatim>\<open>unpackICToGroup\<close>, extended by the
  identity.
\<close>

definition renaming :: "(nat \<Rightarrow> string) \<Rightarrow> node list \<Rightarrow> string \<Rightarrow> string" where
  "renaming gen I k =
     (case map_of (rev (zip (map nid I) (map (\<lambda>i. gen (i + 1)) [0..<length I]))) k of
        None \<Rightarrow> k
      | Some k' \<Rightarrow> k')"

text \<open>The type of the node stored under an id.\<close>

definition typAt :: "engine \<Rightarrow> string \<Rightarrow> node_type option" where
  "typAt s k = map_option typ_of (getNode (nodes s) k)"

text \<open>
  Input pin \<open>j\<close> of node \<open>k\<close> is driven by output pin \<open>i\<close> of node \<open>a\<close> and by nothing else:
  there is a wire from the one to the other, and every wire into that pin is such a wire.
\<close>

definition feeds :: "engine \<Rightarrow> string \<Rightarrow> nat \<Rightarrow> string \<Rightarrow> nat \<Rightarrow> bool" where
  "feeds s a i k j =
     ((a, i, k, j) \<in> set (connections id (wires s)) \<and>
      (\<forall>c \<in> set (connections id (wires s)). snd (snd c) = (k, j) \<longrightarrow> c = (a, i, k, j)))"

text \<open>
  Two SWITCH nodes \<open>a\<close> and \<open>b\<close> and an AND gate \<open>c\<close> feeding a LIGHT \<open>d\<close>: output 0 of the
  switches drives input pins 0 and 1 of the gate, output 0 of the gate drives input pin 0
  of the light.
\<close>

definition andLight :: "string \<Rightarrow> string \<Rightarrow> string \<Rightarrow> string \<Rightarrow> engine \<Rightarrow> bool" where
  "andLight a b c d s =
     (typAt s a = Some SWITCH \<and> typAt s b = Some SWITCH \<and> typAt s c = Some AND \<and>
      typAt s d = Some LIGHT \<and>
      feeds s a 0 c 0 \<and> feeds s b 0 c 1 \<and> feeds s c 0 d 0)"

text \<open>The engine after the assignment of \<^verbatim>\<open>toggleSwitch\<close>, before its forced tick.\<close>

definition flipSwitch :: "string \<Rightarrow> engine \<Rightarrow> engine" where
  "flipSwitch k s =
     s\<lparr>nodes := modifyNode k
                  (\<lambda>c. c\<lparr>outputs := js_set (outputs c) 0
                            (Val (\<not> truthy (js_get (outputs c) 0)))\<rparr>) (nodes s)\<rparr>"

section \<open>Verified properties\<close>

subsection \<open>Evaluation of one node\<close>

lemma js_get_set0: "js_get (js_set xs 0 (to_slot v)) 0 = v"
  by (cases xs) (auto simp: js_get_def js_set_def to_slot_def split: option.splits)

lemma evalIC_keeps:
  "evalIC h c n = Inr (c', n') \<Longrightarrow> typ_of n' = typ_of n \<and> inputs (core n') = inputs (core n) \<and> nid n' = nid n"
  by (auto simp: evalIC_def Let_def upd_def typ_of_def nid_def split: if_splits option.splits fn_result.splits)

lemma evalNode_keeps:
  "evalNode h c n = Inr (c', n') \<Longrightarrow> typ_of n' = typ_of n \<and> inputs (core n') = inputs (core n) \<and> nid n' = nid n"
  by (cases "typ_of n") (auto simp: evalNode_def Let_def setOut0_def upd_def typ_of_def nid_def dest: evalIC_keeps[unfolded typ_of_def nid_def])

lemma evalNode_out0:
  assumes "evalNode h c n = Inr (c', n')"
  shows "(typ_of n = AND \<longrightarrow> js_get (outputs (core n')) 0 = js_and (js_get (inputs (core n)) 0) (js_get (inputs (core n)) 1))
       \<and> (typ_of n = OR \<longrightarrow> js_get (outputs (core n')) 0 = js_or (js_get (inputs (core n)) 0) (js_get (inputs (core n)) 1))
       \<and> (typ_of n = NOT \<longrightarrow> js_get (outputs (core n')) 0 = js_not (js_get (inputs (core n)) 0))
       \<and> (typ_of n = NAND \<longrightarrow> js_get (outputs (core n')) 0 = js_not (js_and (js_get (inputs (core n)) 0) (js_get (inputs (core n)) 1)))
       \<and> (typ_of n = XOR \<longrightarrow> js_get (outputs (core n')) 0 = Some (truthy (js_get (inputs (core n)) 0) \<noteq> truthy (js_get (inputs (core n)) 1)))
       \<and> (typ_of n = BUFFER \<longrightarrow> js_get (outputs (core n')) 0 = js_get (inputs (core n)) 0)"
  using assms
  by (cases "typ_of n") (auto simp: evalNode_def Let_def setOut0_def upd_def js_get_set0)

lemma computeLogic_done:
  "computeLogic h c ns = (c', ns', None) \<Longrightarrow> n' \<in> set ns' \<Longrightarrow>
     \<exists>n ca cb. n \<in> set ns \<and> evalNode h ca n = Inr (cb, n')"
proof (induction ns arbitrary: c c' ns')
  case Nil
  then show ?case by simp
next
  case (Cons m ms)
  show ?case
  proof (cases "evalNode h c m")
    case (Inl e)
    with Cons.prems show ?thesis by (auto split: prod.splits)
  next
    case (Inr r)
    obtain c1 m' where r: "r = (c1, m')" by (cases r)
    obtain c2 ms' r2 where rec: "computeLogic h c1 ms = (c2, ms', r2)" by (cases "computeLogic h c1 ms")
    from Cons.prems(1) Inr r rec have eq: "ns' = m' # ms'" "r2 = None" "c' = c2" by auto
    show ?thesis
    proof (cases "n' = m'")
      case True
      with Inr r show ?thesis by auto
    next
      case False
      with Cons.prems(2) eq have "n' \<in> set ms'" by simp
      from Cons.IH[OF rec[unfolded eq(2)] this] show ?thesis by auto
    qed
  qed
qed

lemma tick_Inr_cases:
  assumes "tick h t s = Inr s'" "\<not> gated t s"
  obtains ws ns3 cache ns4 where
    "propagate (wires s) (map resetInputs (map (updateClock (tickCount s + 1)) (nodes s))) = (ws, ns3)"
    "computeLogic h (fnCache s) ns3 = (cache, ns4, None)"
    "s' = s\<lparr>nodes := ns4, wires := ws, lastTick := t, tickCount := tickCount s + 1, fnCache := cache\<rparr>"
proof -
  obtain ws ns3 where p: "propagate (wires s) (map resetInputs (map (updateClock (tickCount s + 1)) (nodes s))) = (ws, ns3)"
    by (cases "propagate (wires s) (map resetInputs (map (updateClock (tickCount s + 1)) (nodes s)))")
  obtain cache ns4 r where c: "computeLogic h (fnCache s) ns3 = (cache, ns4, r)"
    by (cases "computeLogic h (fnCache s) ns3")
  from assms(2) have ng: "\<not> (\<not> isRunning s \<and> t \<noteq> -1)" "\<not> (t \<noteq> -1 \<and> t - lastTick s < tickRate s)"
    by (auto simp: gated_def)
  from assms(1) ng p c have "r = None \<and> s' = s\<lparr>nodes := ns4, wires := ws, lastTick := t, tickCount := tickCount s + 1, fnCache := cache\<rparr>"
    by (cases r) (simp_all add: tick_def Let_def del: One_nat_def)
  with p c that show ?thesis by blast
qed

lemma tick_done_nodes:
  assumes "tick h t s = Inr s'" "\<not> gated t s" "n' \<in> set (nodes s')"
  shows "\<exists>n ca cb. evalNode h ca n = Inr (cb, n')"
proof -
  from assms(1,2) obtain ws ns3 cache ns4 where
    c: "computeLogic h (fnCache s) ns3 = (cache, ns4, None)" and
    s': "s' = s\<lparr>nodes := ns4, wires := ws, lastTick := t, tickCount := tickCount s + 1, fnCache := cache\<rparr>"
    by (rule tick_Inr_cases)
  from s' assms(3) have "n' \<in> set ns4" by simp
  from computeLogic_done[OF c this] show ?thesis by blast
qed

subsection \<open>The run gate\<close>

text \<open>
  C10. A call \<^verbatim>\<open>tick(timestamp)\<close> with a timestamp other than \<open>-1\<close>, made while the simulator
  is not running or before \<open>tickRate\<close> milliseconds have passed since the last accepted
  tick, returns the engine exactly as it was: tick counter, nodes (inputs and outputs), wires
  (cached states) and every other field are unchanged.
\<close>

theorem tick_gated_unchanged:
  "timestamp \<noteq> -1 \<Longrightarrow> \<not> isRunning s \<or> timestamp - lastTick s < tickRate s \<Longrightarrow>
     tick h timestamp s = Inr s"
  by (auto simp: tick_def)

theorem tick_gated_unchanged_witness:
  "(16::real) \<noteq> -1 \<and> \<not> isRunning demoEngine \<and> tick noHost 16 demoEngine = Inr demoEngine \<and>
   isRunning (demoEngine\<lparr>isRunning := True, lastTick := 1000\<rparr>) \<and>
   (1050::real) - lastTick (demoEngine\<lparr>isRunning := True, lastTick := 1000\<rparr>)
      < tickRate (demoEngine\<lparr>isRunning := True, lastTick := 1000\<rparr>) \<and>
   tick noHost 1050 (demoEngine\<lparr>isRunning := True, lastTick := 1000\<rparr>)
      = Inr (demoEngine\<lparr>isRunning := True, lastTick := 1000\<rparr>)"
proof -
  have a: "\<not> isRunning demoEngine"
    by code_simp
  have b: "isRunning (demoEngine\<lparr>isRunning := True, lastTick := 1000\<rparr>)"
    by simp
  have c: "(1050::real) - lastTick (demoEngine\<lparr>isRunning := True, lastTick := 1000\<rparr>)
      < tickRate (demoEngine\<lparr>isRunning := True, lastTick := 1000\<rparr>)"
    by code_simp
  have n1: "(16::real) \<noteq> -1" by simp
  have n2: "(1050::real) \<noteq> -1" by simp
  from a have a': "\<not> isRunning demoEngine \<or> 16 - lastTick demoEngine < tickRate demoEngine"
    by simp
  from c have c': "\<not> isRunning (demoEngine\<lparr>isRunning := True, lastTick := 1000\<rparr>) \<or>
      1050 - lastTick (demoEngine\<lparr>isRunning := True, lastTick := 1000\<rparr>)
        < tickRate (demoEngine\<lparr>isRunning := True, lastTick := 1000\<rparr>)"
    by simp
  show ?thesis
    using tick_gated_unchanged[OF n1 a', of noHost] tick_gated_unchanged[OF n2 c', of noHost] a b c n1
    by simp
qed

subsection \<open>Combinational truth tables\<close>

text \<open>
  C1. After a tick that ran (it was not stopped by the run gate and no IC callable threw),
  every node of type AND, OR, NOT, NAND, XOR or BUFFER whose input pins hold booleans has on
  output pin 0 the value of the fixed rule for its type: AND both inputs true, OR either
  input true, NOT the negation of input 0, NAND the negation of AND, XOR the inputs differ,
  BUFFER input 0. The inputs are those the node has after the tick: the evaluation phase
  reads them and leaves them as they are.
\<close>

theorem gate_truth_tables:
  assumes "tick h timestamp s = Inr s'" and "\<not> gated timestamp s" and "n \<in> set (nodes s')"
    and "js_get (inputs (core n)) 0 = Some a"
    and "typ_of n \<in> {AND, OR, NAND, XOR} \<longrightarrow> js_get (inputs (core n)) 1 = Some b"
  shows "(typ_of n = AND \<longrightarrow> js_get (outputs (core n)) 0 = Some (a \<and> b)) \<and>
         (typ_of n = OR \<longrightarrow> js_get (outputs (core n)) 0 = Some (a \<or> b)) \<and>
         (typ_of n = NOT \<longrightarrow> js_get (outputs (core n)) 0 = Some (\<not> a)) \<and>
         (typ_of n = NAND \<longrightarrow> js_get (outputs (core n)) 0 = Some (\<not> (a \<and> b))) \<and>
         (typ_of n = XOR \<longrightarrow> js_get (outputs (core n)) 0 = Some (a \<noteq> b)) \<and>
         (typ_of n = BUFFER \<longrightarrow> js_get (outputs (core n)) 0 = Some a)"
proof -
  from tick_done_nodes[OF assms(1,2,3)] obtain m ca cb where
    ev: "evalNode h ca m = Inr (cb, n)" by blast
  from evalNode_keeps[OF ev] have k: "typ_of n = typ_of m" "inputs (core n) = inputs (core m)"
    by simp_all
  from evalNode_out0[OF ev] assms(4,5) k show ?thesis
    by (auto simp: js_and_def js_or_def js_not_def truthy_def)
qed

theorem gate_truth_tables_witness:
  "tick noHost (-1) (after demoSwitchedOn) = Inr (after (thenDo demoSwitchedOn (tick noHost (-1)))) \<and>
   \<not> gated (-1) (after demoSwitchedOn) \<and>
   the (getNode (nodes (after (thenDo demoSwitchedOn (tick noHost (-1))))) ''and'')
     \<in> set (nodes (after (thenDo demoSwitchedOn (tick noHost (-1))))) \<and>
   typ_of (the (getNode (nodes (after (thenDo demoSwitchedOn (tick noHost (-1))))) ''and'')) = AND \<and>
   inputOf (after (thenDo demoSwitchedOn (tick noHost (-1)))) ''and'' 0 = Some True \<and>
   inputOf (after (thenDo demoSwitchedOn (tick noHost (-1)))) ''and'' 1 = Some True \<and>
   outputOf (after (thenDo demoSwitchedOn (tick noHost (-1)))) ''and'' 0 = Some (True \<and> True)"
proof -
  let ?s = "after demoSwitchedOn"
  let ?s' = "after (thenDo demoSwitchedOn (tick noHost (-1)))"
  let ?n = "the (getNode (nodes ?s') ''and'')"
  have t: "tick noHost (-1) ?s = Inr ?s'" by code_simp
  have g: "\<not> gated (-1) ?s" by (simp add: gated_def)
  have m: "?n \<in> set (nodes ?s')" by code_simp
  have ty: "typ_of ?n = AND" by code_simp
  have i0: "js_get (inputs (core ?n)) 0 = Some True" by code_simp
  have i1: "typ_of ?n \<in> {AND, OR, NAND, XOR} \<longrightarrow> js_get (inputs (core ?n)) 1 = Some True" by code_simp
  have io0: "inputOf ?s' ''and'' 0 = Some True" by code_simp
  have io1: "inputOf ?s' ''and'' 1 = Some True" by code_simp
  have oo: "outputOf ?s' ''and'' 0 = js_get (outputs (core ?n)) 0" by code_simp
  from gate_truth_tables[OF t g m i0 i1] ty have "js_get (outputs (core ?n)) 0 = Some (True \<and> True)"
    by blast
  with t g m ty io0 io1 oo show ?thesis by simp
qed

subsection \<open>Propagation along wires\<close>

lemma strip_inputs_keeps:
  "nid (strip_inputs a) = nid a" "typ_of (strip_inputs a) = typ_of a"
  "outputs (core (strip_inputs a)) = outputs (core a)"
  by (simp_all add: strip_inputs_def upd_def nid_def typ_of_def)

lemma strip_inputs_upd [simp]: "strip_inputs (upd (\<lambda>c. c\<lparr>inputs := g c\<rparr>) a) = strip_inputs a"
  by (simp add: strip_inputs_def upd_def)

lemma same_but_inputs_refl: "same_but_inputs a a"
  by (simp add: same_but_inputs_def)

lemma same_but_inputs_trans:
  "same_but_inputs a b \<Longrightarrow> same_but_inputs b c \<Longrightarrow> same_but_inputs a c"
  by (simp add: same_but_inputs_def)

lemma same_but_inputs_keeps:
  assumes "same_but_inputs a b"
  shows "nid b = nid a" "typ_of b = typ_of a" "outputs (core b) = outputs (core a)"
proof -
  from assms have e: "strip_inputs a = strip_inputs b" by (simp add: same_but_inputs_def)
  show "nid b = nid a" using arg_cong[OF e, of nid] by (simp add: strip_inputs_keeps)
  show "typ_of b = typ_of a" using arg_cong[OF e, of typ_of] by (simp add: strip_inputs_keeps)
  show "outputs (core b) = outputs (core a)"
    using arg_cong[OF e, of "\<lambda>n. outputs (core n)"] by (simp add: strip_inputs_keeps)
qed

lemma modifyNode_inputs_rel:
  "list_all2 same_but_inputs ns (modifyNode k (\<lambda>c. c\<lparr>inputs := g c\<rparr>) ns)"
  unfolding modifyNode_def list_all2_map2
  by (simp add: list_all2_same same_but_inputs_def)

lemma propagate_rel:
  "propagate ws ns = (ws', ns') \<Longrightarrow> list_all2 same_but_inputs ns ns'"
proof (induction ws arbitrary: ns ws' ns')
  case Nil
  then show ?case by (simp add: list_all2_same same_but_inputs_refl)
next
  case (Cons w ws)
  show ?case
  proof (cases "getNode ns (sourceNodeId w) \<noteq> None \<and> getNode ns (targetNodeId w) \<noteq> None")
    case True
    then obtain a b where ab: "getNode ns (sourceNodeId w) = Some a" "getNode ns (targetNodeId w) = Some b"
      by auto
    let ?ns1 = "modifyNode (targetNodeId w)
        (\<lambda>c. c\<lparr>inputs := js_set (inputs c) (targetPinIndex w)
                    (Val (truthy (js_get (outputs (core a)) (sourcePinIndex w))))\<rparr>) ns"
    obtain ws1 ns2 where r: "propagate ws ?ns1 = (ws1, ns2)" by (cases "propagate ws ?ns1")
    from Cons.prems ab r have "ns' = ns2" by (simp add: Let_def)
    with Cons.IH[OF r] have b: "list_all2 same_but_inputs ?ns1 ns'" by simp
    have a: "list_all2 same_but_inputs ns ?ns1" by (rule modifyNode_inputs_rel)
    show ?thesis
      by (rule list_all2_trans[OF same_but_inputs_trans a b])
  next
    case False
    obtain ws1 ns2 where r: "propagate ws ns = (ws1, ns2)" by (cases "propagate ws ns")
    from False have "getNode ns (sourceNodeId w) = None \<or> getNode ns (targetNodeId w) = None" by simp
    with Cons.prems r have "ns' = ns2" by (cases "getNode ns (sourceNodeId w)"; cases "getNode ns (targetNodeId w)") simp_all
    with Cons.IH[OF r] show ?thesis by simp
  qed
qed

lemma rel_getNode:
  "list_all2 same_but_inputs ns ns' \<Longrightarrow>
     (getNode ns k = None \<longrightarrow> getNode ns' k = None) \<and>
     (\<forall>a. getNode ns k = Some a \<longrightarrow> (\<exists>b. getNode ns' k = Some b \<and> same_but_inputs a b))"
proof (induction rule: list_all2_induct)
  case Nil
  then show ?case by (simp add: getNode_def)
next
  case (Cons x xs y ys)
  from same_but_inputs_keeps[OF Cons.hyps(1)] have e: "nid y = nid x" by simp
  show ?case
  proof (cases "nid x = k")
    case True
    with e Cons.hyps(1) show ?thesis by (simp add: getNode_def)
  next
    case False
    with e Cons.IH show ?thesis by (simp add: getNode_def)
  qed
qed


lemma js_get_set_same: "js_get (js_set xs j (Val v)) j = Some v"
  by (simp add: js_get_def js_set_def nth_append)

lemma js_get_set_other: "j \<noteq> j' \<Longrightarrow> js_get (js_set xs j' v) j = js_get xs j"
  by (auto simp: js_get_def js_set_def nth_append)

lemma getNode_map:
  "(\<And>n. nid (f n) = nid n) \<Longrightarrow> getNode (map f ns) k = map_option f (getNode ns k)"
  by (induction ns) (simp_all add: getNode_def)

lemma getNode_modifyNode:
  "getNode (modifyNode k' f ns) k =
     map_option (\<lambda>n. if nid n = k' then upd f n else n) (getNode ns k)" if "\<And>c. node_id (f c) = node_id c"
proof -
  have "\<And>n. nid (if nid n = k' then upd f n else n) = nid n"
    using that by (simp add: nid_def upd_def)
  then show ?thesis unfolding modifyNode_def by (rule getNode_map)
qed

lemma getNode_nid: "getNode ns k = Some n \<Longrightarrow> nid n = k \<and> n \<in> set ns"
  unfolding getNode_def by (induction ns) (auto split: if_splits)

text \<open>A wire list without a live writer of pin \<open>j\<close> of node \<open>k\<close> leaves that slot alone.\<close>

lemma propagate_no_writer:
  assumes "propagate ws ns = (ws', ns')"
    and "\<forall>w \<in> set ws. targetNodeId w = k \<and> targetPinIndex w = j \<longrightarrow> getNode ns (sourceNodeId w) = None"
    and "getNode ns k = Some b"
  shows "\<exists>b'. getNode ns' k = Some b' \<and> js_get (inputs (core b')) j = js_get (inputs (core b)) j"
  using assms
proof (induction ws arbitrary: ns ws' ns' b)
  case Nil
  then show ?case by simp
next
  case (Cons w ws)
  show ?case
  proof (cases "getNode ns (sourceNodeId w) \<noteq> None \<and> getNode ns (targetNodeId w) \<noteq> None")
    case True
    then obtain a t where ab: "getNode ns (sourceNodeId w) = Some a" "getNode ns (targetNodeId w) = Some t"
      by auto
    let ?f = "\<lambda>c. c\<lparr>inputs := js_set (inputs c) (targetPinIndex w)
                    (Val (truthy (js_get (outputs (core a)) (sourcePinIndex w))))\<rparr>"
    let ?ns1 = "modifyNode (targetNodeId w) ?f ns"
    obtain ws1 ns2 where r: "propagate ws ?ns1 = (ws1, ns2)" by (cases "propagate ws ?ns1")
    from Cons.prems(1) ab r have ns': "ns' = ns2" by (simp add: Let_def)
    have rel: "list_all2 same_but_inputs ns ?ns1" by (rule modifyNode_inputs_rel)
    from Cons.prems(2) ab have nw: "\<not> (targetNodeId w = k \<and> targetPinIndex w = j)" by auto
    have g1: "getNode ?ns1 k = Some (if nid b = targetNodeId w then upd ?f b else b)"
      using Cons.prems(3) by (simp add: getNode_modifyNode)
    let ?b1 = "if nid b = targetNodeId w then upd ?f b else b"
    from getNode_nid[OF Cons.prems(3)] have nb: "nid b = k" by simp
    have same: "js_get (inputs (core ?b1)) j = js_get (inputs (core b)) j"
      using nw nb by (auto simp: upd_def js_get_set_other)
    have hyp: "\<forall>w' \<in> set ws. targetNodeId w' = k \<and> targetPinIndex w' = j \<longrightarrow> getNode ?ns1 (sourceNodeId w') = None"
      using Cons.prems(2) rel_getNode[OF rel] by auto
    from Cons.IH[OF r hyp g1] ns' same show ?thesis by auto
  next
    case False
    obtain ws1 ns2 where r: "propagate ws ns = (ws1, ns2)" by (cases "propagate ws ns")
    from False have "getNode ns (sourceNodeId w) = None \<or> getNode ns (targetNodeId w) = None" by simp
    with Cons.prems(1) r have ns': "ns' = ns2"
      by (cases "getNode ns (sourceNodeId w)"; cases "getNode ns (targetNodeId w)") simp_all
    from Cons.prems(2) have hyp: "\<forall>w' \<in> set ws. targetNodeId w' = k \<and> targetPinIndex w' = j \<longrightarrow> getNode ns (sourceNodeId w') = None"
      by simp
    from Cons.IH[OF r hyp Cons.prems(3)] ns' show ?thesis by simp
  qed
qed

text \<open>The last live writer of a pin decides it.\<close>

lemma propagate_wire:
  assumes "propagate (pre @ w # post) ns = (ws', ns')"
    and "getNode ns (sourceNodeId w) = Some a"
    and "getNode ns (targetNodeId w) = Some b"
    and "\<forall>w' \<in> set post. targetNodeId w' = targetNodeId w \<and> targetPinIndex w' = targetPinIndex w
            \<longrightarrow> getNode ns (sourceNodeId w') = None"
  shows "\<exists>b'. getNode ns' (targetNodeId w) = Some b' \<and>
           js_get (inputs (core b')) (targetPinIndex w)
             = Some (truthy (js_get (outputs (core a)) (sourcePinIndex w)))"
  using assms
proof (induction pre arbitrary: ns ws' ns' a b)
  case Nil
  let ?f = "\<lambda>c. c\<lparr>inputs := js_set (inputs c) (targetPinIndex w)
                    (Val (truthy (js_get (outputs (core a)) (sourcePinIndex w))))\<rparr>"
  let ?ns1 = "modifyNode (targetNodeId w) ?f ns"
  obtain ws1 ns2 where r: "propagate post ?ns1 = (ws1, ns2)" by (cases "propagate post ?ns1")
  from Nil.prems(1,2,3) r have ns': "ns' = ns2" by (simp add: Let_def)
  have rel: "list_all2 same_but_inputs ns ?ns1" by (rule modifyNode_inputs_rel)
  from getNode_nid[OF Nil.prems(3)] have nb: "nid b = targetNodeId w" by simp
  have g1: "getNode ?ns1 (targetNodeId w) = Some (upd ?f b)"
    using Nil.prems(3) nb by (simp add: getNode_modifyNode)
  have hyp: "\<forall>w' \<in> set post. targetNodeId w' = targetNodeId w \<and> targetPinIndex w' = targetPinIndex w
       \<longrightarrow> getNode ?ns1 (sourceNodeId w') = None"
    using Nil.prems(4) rel_getNode[OF rel] by auto
  from propagate_no_writer[OF r hyp g1] ns' show ?case
    by (auto simp: upd_def js_get_set_same)
next
  case (Cons p pre)
  have "\<exists>ns1 ws1. propagate (pre @ w # post) ns1 = (ws1, ns') \<and> list_all2 same_but_inputs ns ns1"
  proof (cases "getNode ns (sourceNodeId p) \<noteq> None \<and> getNode ns (targetNodeId p) \<noteq> None")
    case True
    then obtain a' t where ab: "getNode ns (sourceNodeId p) = Some a'" "getNode ns (targetNodeId p) = Some t"
      by auto
    let ?ns1 = "modifyNode (targetNodeId p)
        (\<lambda>c. c\<lparr>inputs := js_set (inputs c) (targetPinIndex p)
                    (Val (truthy (js_get (outputs (core a')) (sourcePinIndex p))))\<rparr>) ns"
    obtain ws1 ns2 where r: "propagate (pre @ w # post) ?ns1 = (ws1, ns2)"
      by (cases "propagate (pre @ w # post) ?ns1")
    from Cons.prems(1) ab r have e: "ns' = ns2" by (simp add: Let_def)
    have rel1: "list_all2 same_but_inputs ns ?ns1" by (rule modifyNode_inputs_rel)
    from r e have "propagate (pre @ w # post) ?ns1 = (ws1, ns')" by simp
    with rel1 show ?thesis by (intro exI conjI)
  next
    case False
    obtain ws1 ns2 where r: "propagate (pre @ w # post) ns = (ws1, ns2)"
      by (cases "propagate (pre @ w # post) ns")
    from False have "getNode ns (sourceNodeId p) = None \<or> getNode ns (targetNodeId p) = None" by simp
    with Cons.prems(1) r have "ns' = ns2"
      by (cases "getNode ns (sourceNodeId p)"; cases "getNode ns (targetNodeId p)") simp_all
    with r show ?thesis by (auto simp: list_all2_same same_but_inputs_refl)
  qed
  then obtain ns1 ws1 where r: "propagate (pre @ w # post) ns1 = (ws1, ns')"
    and rel: "list_all2 same_but_inputs ns ns1" by blast
  from rel_getNode[OF rel, of "sourceNodeId w"] Cons.prems(2) obtain a1 where
    a1: "getNode ns1 (sourceNodeId w) = Some a1" "same_but_inputs a a1" by auto
  from rel_getNode[OF rel, of "targetNodeId w"] Cons.prems(3) obtain b1 where
    b1: "getNode ns1 (targetNodeId w) = Some b1" by auto
  have hyp: "\<forall>w' \<in> set post. targetNodeId w' = targetNodeId w \<and> targetPinIndex w' = targetPinIndex w
       \<longrightarrow> getNode ns1 (sourceNodeId w') = None"
    using Cons.prems(4) rel_getNode[OF rel] by auto
  from Cons.IH[OF r a1(1) b1 hyp] same_but_inputs_keeps(3)[OF a1(2)] show ?case by simp
qed

lemma updateClock_keeps:
  "nid (updateClock tc n) = nid n" "typ_of (updateClock tc n) = typ_of n"
  by (simp_all add: updateClock_def upd_def nid_def typ_of_def)

lemma resetInputs_keeps:
  "nid (resetInputs n) = nid n" "typ_of (resetInputs n) = typ_of n"
  "outputs (core (resetInputs n)) = outputs (core n)"
  by (simp_all add: resetInputs_def upd_def nid_def typ_of_def)

lemma getNode_phases:
  "getNode (map resetInputs (map (updateClock tc) ns)) k
     = map_option (\<lambda>n. resetInputs (updateClock tc n)) (getNode ns k)"
proof -
  have "getNode (map (\<lambda>n. resetInputs (updateClock tc n)) ns) k
      = map_option (\<lambda>n. resetInputs (updateClock tc n)) (getNode ns k)"
    by (rule getNode_map) (simp add: resetInputs_keeps updateClock_keeps)
  then show ?thesis by (simp add: comp_def)
qed

lemma computeLogic_getNode:
  "computeLogic h c ns = (c', ns', None) \<Longrightarrow> getNode ns k = Some n \<Longrightarrow>
     \<exists>n' ca cb. getNode ns' k = Some n' \<and> evalNode h ca n = Inr (cb, n')"
proof (induction ns arbitrary: c c' ns')
  case Nil
  then show ?case by (simp add: getNode_def)
next
  case (Cons m ms)
  show ?case
  proof (cases "evalNode h c m")
    case (Inl e)
    with Cons.prems(1) show ?thesis by (auto split: prod.splits)
  next
    case (Inr r)
    obtain c1 m' where r: "r = (c1, m')" by (cases r)
    obtain c2 ms' r2 where rec: "computeLogic h c1 ms = (c2, ms', r2)" by (cases "computeLogic h c1 ms")
    from Cons.prems(1) Inr r rec have eq: "ns' = m' # ms'" "r2 = None" by auto
    from evalNode_keeps[OF Inr[unfolded r]] have idm: "nid m' = nid m" by simp
    show ?thesis
    proof (cases "nid m = k")
      case True
      with Cons.prems(2) have "n = m" by (simp add: getNode_def)
      with True idm eq Inr r show ?thesis by (auto simp: getNode_def)
    next
      case False
      with Cons.prems(2) have g: "getNode ms k = Some n" by (simp add: getNode_def)
      from Cons.IH[OF rec[unfolded eq(2)] g] obtain n' ca cb where
        "getNode ms' k = Some n'" "evalNode h ca n = Inr (cb, n')" by blast
      with False idm eq show ?thesis by (auto simp: getNode_def)
    qed
  qed
qed

lemma tick_forced_count:
  assumes "tick h (-1) s = Inr s'" shows "tickCount s' = tickCount s + 1"
proof -
  have g: "\<not> gated (-1) s" by (simp add: gated_def)
  from assms g obtain ws ns3 cache ns4 where
    "s' = s\<lparr>nodes := ns4, wires := ws, lastTick := -1, tickCount := tickCount s + 1, fnCache := cache\<rparr>"
    by (rule tick_Inr_cases)
  then show ?thesis by simp
qed

lemma evalNode_clock: "typ_of n = CLOCK \<Longrightarrow> evalNode h c n = Inr (c, n)"
  by (simp add: evalNode_def)

lemma rel_set:
  "list_all2 same_but_inputs ns ns' \<Longrightarrow> n' \<in> set ns' \<Longrightarrow> \<exists>n \<in> set ns. same_but_inputs n n'"
  by (induction rule: list_all2_induct) auto

lemma clock_after_tick:
  assumes "tick h timestamp s = Inr s'" and "\<not> gated timestamp s"
    and "n \<in> set (nodes s')" and "typ_of n = CLOCK"
  shows "js_get (outputs (core n)) 0 = Some (((tickCount s + 1) div 5) mod 2 = 0)"
proof -
  let ?tc = "tickCount s + 1"
  let ?ns2 = "map resetInputs (map (updateClock ?tc) (nodes s))"
  from assms(1,2) obtain ws ns3 cache ns4 where
    p: "propagate (wires s) ?ns2 = (ws, ns3)" and
    c: "computeLogic h (fnCache s) ns3 = (cache, ns4, None)" and
    s': "s' = s\<lparr>nodes := ns4, wires := ws, lastTick := timestamp, tickCount := ?tc, fnCache := cache\<rparr>"
    by (rule tick_Inr_cases)
  from s' assms(3) have "n \<in> set ns4" by simp
  from computeLogic_done[OF c this] obtain m ca cb where
    m: "m \<in> set ns3" "evalNode h ca m = Inr (cb, n)" by blast
  from evalNode_keeps[OF m(2)] assms(4) have tm: "typ_of m = CLOCK" by simp
  from evalNode_clock[OF tm, of h ca] m(2) have nm: "n = m" by simp
  from rel_set[OF propagate_rel[OF p] m(1)] obtain m2 where
    m2: "m2 \<in> set ?ns2" "same_but_inputs m2 m" by blast
  from m2(1) obtain m0 where m0: "m0 \<in> set (nodes s)" "m2 = resetInputs (updateClock ?tc m0)" by auto
  from same_but_inputs_keeps[OF m2(2)] tm m0(2) have t0: "typ_of m0 = CLOCK"
    by (simp add: resetInputs_keeps updateClock_keeps)
  have "outputs (core m) = outputs (core (updateClock ?tc m0))"
    using same_but_inputs_keeps(3)[OF m2(2)] m0(2) by (simp add: resetInputs_keeps)
  also have "js_get \<dots> 0 = Some ((?tc div 5) mod 2 = 0)"
    using t0 by (simp add: updateClock_def upd_def js_get_set_same)
  finally show ?thesis using nm by simp
qed

subsection \<open>Ticks that complete\<close>

lemma computeLogic_continues:
  "(\<forall>n \<in> set ns. \<forall>c. \<exists>c' n'. evalNode h c n = Inr (c', n')) \<Longrightarrow>
     \<exists>c' ns'. computeLogic h c ns = (c', ns', None)"
proof (induction ns arbitrary: c)
  case Nil
  then show ?case by simp
next
  case (Cons m ms)
  from Cons.prems obtain c1 m' where e: "evalNode h c m = Inr (c1, m')" by fastforce
  from Cons.prems have "\<forall>n \<in> set ms. \<forall>c. \<exists>c' n'. evalNode h c n = Inr (c', n')" by simp
  from Cons.IH[OF this, of c1] obtain c2 ms' where "computeLogic h c1 ms = (c2, ms', None)" by blast
  with e show ?case by simp
qed

lemma evalNode_no_ic: "typ_of n \<noteq> IC \<Longrightarrow> \<exists>c' n'. evalNode h c n = Inr (c', n')"
  by (cases "typ_of n") (simp_all add: evalNode_def Let_def)

lemma computeLogic_shape:
  "computeLogic h c ns = (c', ns', r) \<Longrightarrow>
     map nid ns' = map nid ns \<and> map typ_of ns' = map typ_of ns"
proof (induction ns arbitrary: c c' ns' r)
  case Nil
  then show ?case by simp
next
  case (Cons m ms)
  show ?case
  proof (cases "evalNode h c m")
    case (Inl e)
    with Cons.prems show ?thesis by (auto split: prod.splits)
  next
    case (Inr q)
    obtain c1 m' where q: "q = (c1, m')" by (cases q)
    obtain c2 ms' r2 where rec: "computeLogic h c1 ms = (c2, ms', r2)" by (cases "computeLogic h c1 ms")
    from Cons.prems Inr q rec have eq: "ns' = m' # ms'" by auto
    from evalNode_keeps[OF Inr[unfolded q]] Cons.IH[OF rec] eq show ?thesis by simp
  qed
qed

lemma rel_shape:
  "list_all2 same_but_inputs ns ns' \<Longrightarrow> map nid ns' = map nid ns \<and> map typ_of ns' = map typ_of ns"
  by (induction rule: list_all2_induct) (auto dest: same_but_inputs_keeps)

lemma phases_shape:
  "map nid (map resetInputs (map (updateClock tc) ns)) = map nid ns"
  "map typ_of (map resetInputs (map (updateClock tc) ns)) = map typ_of ns"
  by (induction ns) (simp_all add: resetInputs_keeps updateClock_keeps)

lemma tick_run:
  assumes "\<not> gated t s"
    and "propagate (wires s) (map resetInputs (map (updateClock (tickCount s + 1)) (nodes s))) = (ws, ns3)"
    and "computeLogic h (fnCache s) ns3 = (cache, ns4, r)"
  shows "tick h t s =
           (case r of
              None \<Rightarrow> Inr (s\<lparr>nodes := ns4, wires := ws, lastTick := t,
                                tickCount := tickCount s + 1, fnCache := cache\<rparr>)
            | Some e \<Rightarrow> Inl (e, s\<lparr>nodes := ns4, wires := ws, lastTick := t,
                                tickCount := tickCount s + 1, fnCache := cache\<rparr>))"
proof -
  from assms(1) have a: "\<not> (\<not> isRunning s \<and> t \<noteq> -1)"
    and b: "\<not> (t \<noteq> -1 \<and> t - lastTick s < tickRate s)"
    by (auto simp: gated_def)
  show ?thesis
    unfolding tick_def Let_def if_not_P[OF a] if_not_P[OF b] assms(2) prod.case assms(3)
    by (rule refl)
qed

lemma tick_total_no_ic:
  assumes "\<forall>m \<in> set (nodes s). typ_of m \<noteq> IC"
  shows "\<exists>s'. tick h t s = Inr s' \<and> map nid (nodes s') = map nid (nodes s) \<and>
            map typ_of (nodes s') = map typ_of (nodes s)"
proof (cases "gated t s")
  case True
  then have "tick h t s = Inr s" by (auto simp: gated_def tick_def)
  then show ?thesis by simp
next
  case False
  let ?ns2 = "map resetInputs (map (updateClock (tickCount s + 1)) (nodes s))"
  obtain ws ns3 where p: "propagate (wires s) ?ns2 = (ws, ns3)"
    by (cases "propagate (wires s) ?ns2")
  from rel_shape[OF propagate_rel[OF p]] have sh3: "map nid ns3 = map nid (nodes s)" "map typ_of ns3 = map typ_of (nodes s)"
    unfolding phases_shape by simp_all
  from assms have "IC \<notin> set (map typ_of (nodes s))" by auto
  with sh3(2) have "IC \<notin> set (map typ_of ns3)" by simp
  then have "\<forall>n \<in> set ns3. typ_of n \<noteq> IC" by (metis image_eqI set_map)
  then have "\<forall>n \<in> set ns3. \<forall>c. \<exists>c' n'. evalNode h c n = Inr (c', n')"
    using evalNode_no_ic by blast
  from computeLogic_continues[OF this, of "fnCache s"] obtain cache ns4 where
    c: "computeLogic h (fnCache s) ns3 = (cache, ns4, None)" by blast
  from tick_run[OF False p c]
  have "tick h t s = Inr (s\<lparr>nodes := ns4, wires := ws, lastTick := t, tickCount := tickCount s + 1, fnCache := cache\<rparr>)"
    by simp
  with computeLogic_shape[OF c] sh3 show ?thesis by simp
qed

lemma forcedTicks_total_no_ic:
  "\<forall>m \<in> set (nodes s). typ_of m \<noteq> IC \<Longrightarrow>
     \<exists>s'. forcedTicks h k s = Inr s' \<and> map nid (nodes s') = map nid (nodes s) \<and>
            map typ_of (nodes s') = map typ_of (nodes s)"
proof (induction k)
  case 0
  then show ?case by simp
next
  case (Suc k)
  from Suc obtain sp where sp: "forcedTicks h k s = Inr sp" "map nid (nodes sp) = map nid (nodes s)"
    "map typ_of (nodes sp) = map typ_of (nodes s)" by blast
  from Suc.prems have "IC \<notin> set (map typ_of (nodes s))" by auto
  with sp(3) have "IC \<notin> set (map typ_of (nodes sp))" by simp
  then have "\<forall>m \<in> set (nodes sp). typ_of m \<noteq> IC" by (metis image_eqI set_map)
  from tick_total_no_ic[OF this, of h "-1"] sp show ?case by (auto simp: thenDo_def)
qed

lemma forcedTicks_last:
  "forcedTicks h (Suc k) s = Inr s' \<Longrightarrow>
     \<exists>sp. forcedTicks h k s = Inr sp \<and> tick h (-1) sp = Inr s'"
  by (cases "forcedTicks h k s") (simp_all add: thenDo_def)

lemma forcedTicks_count:
  "forcedTicks h k s = Inr s' \<Longrightarrow> tickCount s' = tickCount s + k"
proof (induction k arbitrary: s')
  case 0
  then show ?case by simp
next
  case (Suc k)
  from forcedTicks_last[OF Suc.prems] obtain sp where
    sp: "forcedTicks h k s = Inr sp" "tick h (-1) sp = Inr s'" by blast
  from Suc.IH[OF sp(1)] tick_forced_count[OF sp(2)] show ?case by simp
qed

subsection \<open>Propagation consistency\<close>

text \<open>
  C2, as stated, fails on a wire whose source is a CLOCK: the clock's output is refreshed
  before propagation, so the target receives the new value. Here a fresh clock (output
  false) is wired to the light; after one forced tick the light's input is true.
\<close>

theorem clock_wire_counterexample:
  "tick noHost (-1) clockWired = Inr (after (tick noHost (-1) clockWired)) \<and>
   wires clockWired =
     [\<lparr>wire_id = ''w1'', sourceNodeId = ''clk'', sourcePinIndex = 0,
        targetNodeId = ''light'', targetPinIndex = 0, state = False\<rparr>] \<and>
   outputOf clockWired ''clk'' 0 = Some False \<and>
   inputOf (after (tick noHost (-1) clockWired)) ''light'' 0 = Some True"
proof (intro conjI)
  show "tick noHost (-1) clockWired = Inr (after (tick noHost (-1) clockWired))" by code_simp
  show "wires clockWired =
     [\<lparr>wire_id = ''w1'', sourceNodeId = ''clk'', sourcePinIndex = 0,
        targetNodeId = ''light'', targetPinIndex = 0, state = False\<rparr>]" by code_simp
  show "outputOf clockWired ''clk'' 0 = Some False" by code_simp
  show "inputOf (after (tick noHost (-1) clockWired)) ''light'' 0 = Some True" by code_simp
qed

text \<open>
  Of two wires into one input pin the later one in the list is written last: here the
  first switch (on) and the second switch (off) both drive pin 0 of the AND gate, and after
  a tick the pin is false.
\<close>

lemma later_wire_wins:
  "connections id (wires doubleWired) =
     [(''sw1'', 0, ''and'', 0), (''sw2'', 0, ''and'', 1), (''and'', 0, ''light'', 0),
      (''sw2'', 0, ''and'', 0)] \<and>
   outputOf doubleWired ''sw1'' 0 = Some True \<and>
   outputOf doubleWired ''sw2'' 0 = Some False \<and>
   inputOf (after (tick noHost (-1) doubleWired)) ''and'' 0 = Some False"
  by code_simp

text \<open>
  C2, amended. Let \<open>w\<close> be a wire of the list, from output pin \<open>i\<close> of node \<open>A\<close> to input
  pin \<open>j\<close> of node \<open>B\<close>, both in the node map, such that no later wire of the list with
  an existing source drives the same input pin (wires are written in list order and the
  last one wins). After a tick that ran and completed, \<open>B.inputs[j]\<close> is
  \<^verbatim>\<open>A.outputs[i] || false\<close> as \<open>A\<close> stands after the clock update of that tick; when \<open>A\<close>
  is not a CLOCK this is \<open>A.outputs[i]\<close> as it stood at the start of the tick, so feedback
  is delayed by one tick.
\<close>

theorem wire_propagation:
  assumes "tick h timestamp s = Inr s'" and "\<not> gated timestamp s"
    and "wires s = pre @ w # post"
    and "getNode (nodes s) (sourceNodeId w) = Some A"
    and "getNode (nodes s) (targetNodeId w) = Some B"
    and "\<forall>w' \<in> set post. targetNodeId w' = targetNodeId w \<and> targetPinIndex w' = targetPinIndex w
            \<longrightarrow> getNode (nodes s) (sourceNodeId w') = None"
  shows "inputOf s' (targetNodeId w) (targetPinIndex w)
           = Some (truthy (js_get (outputs (core (updateClock (tickCount s + 1) A))) (sourcePinIndex w))) \<and>
         (typ_of A \<noteq> CLOCK \<longrightarrow>
            inputOf s' (targetNodeId w) (targetPinIndex w)
              = Some (truthy (outputOf s (sourceNodeId w) (sourcePinIndex w))))"
proof -
  let ?tc = "tickCount s + 1"
  let ?ns2 = "map resetInputs (map (updateClock ?tc) (nodes s))"
  from assms(1,2) obtain ws ns3 cache ns4 where
    p: "propagate (wires s) ?ns2 = (ws, ns3)" and
    c: "computeLogic h (fnCache s) ns3 = (cache, ns4, None)" and
    s': "s' = s\<lparr>nodes := ns4, wires := ws, lastTick := timestamp, tickCount := ?tc, fnCache := cache\<rparr>"
    by (rule tick_Inr_cases)
  let ?A2 = "resetInputs (updateClock ?tc A)"
  let ?B2 = "resetInputs (updateClock ?tc B)"
  have gA: "getNode ?ns2 (sourceNodeId w) = Some ?A2" unfolding getNode_phases assms(4) by simp
  have gB: "getNode ?ns2 (targetNodeId w) = Some ?B2" unfolding getNode_phases assms(5) by simp
  have hyp: "\<forall>w' \<in> set post. targetNodeId w' = targetNodeId w \<and> targetPinIndex w' = targetPinIndex w
            \<longrightarrow> getNode ?ns2 (sourceNodeId w') = None"
    unfolding getNode_phases using assms(6) by simp
  from propagate_wire[OF p[unfolded assms(3)] gA gB hyp] obtain B3 where
    B3: "getNode ns3 (targetNodeId w) = Some B3"
      "js_get (inputs (core B3)) (targetPinIndex w)
         = Some (truthy (js_get (outputs (core ?A2)) (sourcePinIndex w)))" by blast
  from computeLogic_getNode[OF c B3(1)] obtain B4 ca cb where
    B4: "getNode ns4 (targetNodeId w) = Some B4" "evalNode h ca B3 = Inr (cb, B4)" by blast
  from evalNode_keeps[OF B4(2)] have "inputs (core B4) = inputs (core B3)" by simp
  with B3(2) B4(1) s' have main: "inputOf s' (targetNodeId w) (targetPinIndex w)
      = Some (truthy (js_get (outputs (core (updateClock ?tc A))) (sourcePinIndex w)))"
    by (simp add: inputOf_def resetInputs_keeps)
  have "typ_of A \<noteq> CLOCK \<Longrightarrow> updateClock ?tc A = A" by (simp add: updateClock_def)
  with main assms(4) show ?thesis by (simp add: outputOf_def)
qed

theorem wire_propagation_witness:
  "tick noHost (-1) (after demoSwitchedOn) = Inr (after (thenDo demoSwitchedOn (tick noHost (-1)))) \<and>
   \<not> gated (-1) (after demoSwitchedOn) \<and>
   wires (after demoSwitchedOn) =
     [\<lparr>wire_id = ''w1'', sourceNodeId = ''sw1'', sourcePinIndex = 0,
        targetNodeId = ''and'', targetPinIndex = 0, state = False\<rparr>] @
     \<lparr>wire_id = ''w2'', sourceNodeId = ''sw2'', sourcePinIndex = 0,
        targetNodeId = ''and'', targetPinIndex = 1, state = False\<rparr> #
     [\<lparr>wire_id = ''w3'', sourceNodeId = ''and'', sourcePinIndex = 0,
        targetNodeId = ''light'', targetPinIndex = 0, state = False\<rparr>] \<and>
   getNode (nodes (after demoSwitchedOn)) ''sw2'' \<noteq> None \<and>
   getNode (nodes (after demoSwitchedOn)) ''and'' \<noteq> None \<and>
   typ_of (the (getNode (nodes (after demoSwitchedOn)) ''sw2'')) \<noteq> CLOCK \<and>
   outputOf (after demoSwitchedOn) ''sw2'' 0 = Some True \<and>
   inputOf (after (thenDo demoSwitchedOn (tick noHost (-1)))) ''and'' 1 = Some True"
proof -
  let ?s = "after demoSwitchedOn"
  let ?s' = "after (thenDo demoSwitchedOn (tick noHost (-1)))"
  let ?w1 = "\<lparr>wire_id = ''w1'', sourceNodeId = ''sw1'', sourcePinIndex = 0,
        targetNodeId = ''and'', targetPinIndex = 0, state = False\<rparr>"
  let ?w2 = "\<lparr>wire_id = ''w2'', sourceNodeId = ''sw2'', sourcePinIndex = 0,
        targetNodeId = ''and'', targetPinIndex = 1, state = False\<rparr>"
  let ?w3 = "\<lparr>wire_id = ''w3'', sourceNodeId = ''and'', sourcePinIndex = 0,
        targetNodeId = ''light'', targetPinIndex = 0, state = False\<rparr>"
  let ?A = "the (getNode (nodes ?s) ''sw2'')"
  let ?B = "the (getNode (nodes ?s) ''and'')"
  have t: "tick noHost (-1) ?s = Inr ?s'" by code_simp
  have g: "\<not> gated (-1) ?s" by (simp add: gated_def)
  have ws: "wires ?s = [?w1] @ ?w2 # [?w3]" by code_simp
  have a: "getNode (nodes ?s) (sourceNodeId ?w2) = Some ?A" by code_simp
  have b: "getNode (nodes ?s) (targetNodeId ?w2) = Some ?B" by code_simp
  have post: "\<forall>w' \<in> set [?w3]. targetNodeId w' = targetNodeId ?w2 \<and> targetPinIndex w' = targetPinIndex ?w2
            \<longrightarrow> getNode (nodes ?s) (sourceNodeId w') = None" by simp
  have ty: "typ_of ?A \<noteq> CLOCK" by code_simp
  have o: "outputOf ?s ''sw2'' 0 = Some True" by code_simp
  have a': "getNode (nodes ?s) ''sw2'' \<noteq> None" by code_simp
  have b': "getNode (nodes ?s) ''and'' \<noteq> None" by code_simp
  from wire_propagation[OF t g ws a b post, THEN conjunct2] ty o
  have "inputOf ?s' ''and'' 1 = Some True" by (simp add: truthy_def)
  with t g ws a' b' ty o show ?thesis by blast
qed

subsection \<open>Clock periodicity\<close>

text \<open>
  C5, as stated, fails: the tick counter is incremented before the clock is updated. On the
  demo engine with a CLOCK added (counter 0, clock output false), the output is true after
  forced ticks 1 to 4, false after ticks 5 to 9 and true again after tick 10.
\<close>

theorem clock_first_ticks_counterexample:
  "tickCount clockEngine = 0 \<and>
   forcedTicks noHost 10 clockEngine = Inr (after (forcedTicks noHost 10 clockEngine)) \<and>
   outputOf clockEngine ''clk'' 0 = Some False \<and>
   outputOf (after (forcedTicks noHost 1 clockEngine)) ''clk'' 0 = Some True \<and>
   outputOf (after (forcedTicks noHost 4 clockEngine)) ''clk'' 0 = Some True \<and>
   outputOf (after (forcedTicks noHost 5 clockEngine)) ''clk'' 0 = Some False \<and>
   outputOf (after (forcedTicks noHost 9 clockEngine)) ''clk'' 0 = Some False \<and>
   outputOf (after (forcedTicks noHost 10 clockEngine)) ''clk'' 0 = Some True"
proof (intro conjI)
  show "tickCount clockEngine = 0" by code_simp
  show "forcedTicks noHost 10 clockEngine = Inr (after (forcedTicks noHost 10 clockEngine))" by code_simp
  show "outputOf clockEngine ''clk'' 0 = Some False" by code_simp
  show "outputOf (after (forcedTicks noHost 1 clockEngine)) ''clk'' 0 = Some True" by code_simp
  show "outputOf (after (forcedTicks noHost 4 clockEngine)) ''clk'' 0 = Some True" by code_simp
  show "outputOf (after (forcedTicks noHost 5 clockEngine)) ''clk'' 0 = Some False" by code_simp
  show "outputOf (after (forcedTicks noHost 9 clockEngine)) ''clk'' 0 = Some False" by code_simp
  show "outputOf (after (forcedTicks noHost 10 clockEngine)) ''clk'' 0 = Some True" by code_simp
qed

text \<open>
  C5, amended. After \<open>k \<ge> 1\<close> forced ticks from an engine whose tick counter is \<open>c\<close>, every
  CLOCK node has on output 0 the value of \<open>\<lfloor>(c + k) / 5\<rfloor> mod 2 = 0\<close>: from counter 0 the
  output is high after ticks 1 to 4, low after ticks 5 to 9, high after ticks 10 to 14, and
  so on, toggling every 5 ticks from tick 5. On a graph without IC nodes the forced ticks
  always complete and keep the nodes' ids and types.
\<close>

theorem clock_square_wave:
  assumes "0 < k"
  shows "(forcedTicks h k s = Inr s' \<and> n \<in> set (nodes s') \<and> typ_of n = CLOCK \<longrightarrow>
            js_get (outputs (core n)) 0 = Some (((tickCount s + k) div 5) mod 2 = 0)) \<and>
         ((\<forall>m \<in> set (nodes s). typ_of m \<noteq> IC) \<longrightarrow>
            (\<exists>s''. forcedTicks h k s = Inr s'' \<and> map nid (nodes s'') = map nid (nodes s) \<and>
                   map typ_of (nodes s'') = map typ_of (nodes s)))"
proof (intro conjI impI)
  assume a: "forcedTicks h k s = Inr s' \<and> n \<in> set (nodes s') \<and> typ_of n = CLOCK"
  from assms obtain j where k: "k = Suc j" by (cases k) auto
  from a k forcedTicks_last obtain sp where
    sp: "forcedTicks h j s = Inr sp" "tick h (-1) sp = Inr s'" by blast
  have g: "\<not> gated (-1) sp" by (simp add: gated_def)
  from a have "n \<in> set (nodes s')" "typ_of n = CLOCK" by simp_all
  from clock_after_tick[OF sp(2) g this] forcedTicks_count[OF sp(1)] k
  show "js_get (outputs (core n)) 0 = Some (((tickCount s + k) div 5) mod 2 = 0)" by simp
next
  assume "\<forall>m \<in> set (nodes s). typ_of m \<noteq> IC"
  then show "\<exists>s''. forcedTicks h k s = Inr s'' \<and> map nid (nodes s'') = map nid (nodes s) \<and>
                   map typ_of (nodes s'') = map typ_of (nodes s)"
    by (rule forcedTicks_total_no_ic)
qed

theorem clock_square_wave_witness:
  "(0::nat) < 7 \<and>
   forcedTicks noHost 7 clockEngine = Inr (after (forcedTicks noHost 7 clockEngine)) \<and>
   the (getNode (nodes (after (forcedTicks noHost 7 clockEngine))) ''clk'')
      \<in> set (nodes (after (forcedTicks noHost 7 clockEngine))) \<and>
   typ_of (the (getNode (nodes (after (forcedTicks noHost 7 clockEngine))) ''clk'')) = CLOCK \<and>
   map typ_of (nodes clockEngine) = [SWITCH, SWITCH, AND, LIGHT, CLOCK] \<and>
   tickCount clockEngine = 0 \<and>
   outputOf (after (forcedTicks noHost 7 clockEngine)) ''clk'' 0 = Some False \<and>
   map nid (nodes (after (forcedTicks noHost 7 clockEngine))) = map nid (nodes clockEngine)"
proof -
  let ?s' = "after (forcedTicks noHost 7 clockEngine)"
  let ?n = "the (getNode (nodes ?s') ''clk'')"
  have k: "(0::nat) < 7" by simp
  have r: "forcedTicks noHost 7 clockEngine = Inr ?s'" by code_simp
  have m: "?n \<in> set (nodes ?s')" by code_simp
  have ty: "typ_of ?n = CLOCK" by code_simp
  have tys: "map typ_of (nodes clockEngine) = [SWITCH, SWITCH, AND, LIGHT, CLOCK]" by code_simp
  have "IC \<notin> set (map typ_of (nodes clockEngine))" unfolding tys by simp
  then have ni: "\<forall>m \<in> set (nodes clockEngine). typ_of m \<noteq> IC" by (metis image_eqI set_map)
  have tc: "tickCount clockEngine = 0" by code_simp
  have oo: "outputOf ?s' ''clk'' 0 = js_get (outputs (core ?n)) 0" by code_simp
  note th = clock_square_wave[OF k, of noHost clockEngine ?s' ?n]
  from th r m ty tc have "js_get (outputs (core ?n)) 0 = Some False" by simp
  moreover from th ni r have "map nid (nodes ?s') = map nid (nodes clockEngine)" by auto
  ultimately show ?thesis using k r m ty tys tc oo by simp
qed

subsection \<open>IC evaluation: what is caught and what is not\<close>

text \<open>
  C4, as stated, fails in its middle part: evaluating an IC can throw out of the tick
  loop. Only the construction of the callable stands inside \<^verbatim>\<open>try\<close>; the call
  \<^verbatim>\<open>fn(mappedInputs, ...)\<close> does not. For an IC whose body compiles to a callable that
  throws when it is called, followed by a NOT gate, the forced tick ends with the error
  and the NOT gate, whose input is false, is not evaluated: its output stays false. On the
  same engine with a host that rejects the body, the tick completes and the NOT gate's
  output becomes true.
\<close>

theorem ic_callable_throws_counterexample:
  "map typ_of (nodes throwingEngine) = [IC, NOT] \<and>
   compiledFunction (core throwingIC) = Some ''throw 0'' \<and>
   isl (tick throwingHost (-1) throwingEngine) \<and>
   tick throwingHost (-1) throwingEngine
     = Inl (RuntimeError, after (tick throwingHost (-1) throwingEngine)) \<and>
   inputOf (after (tick throwingHost (-1) throwingEngine)) ''not'' 0 = Some False \<and>
   outputOf (after (tick throwingHost (-1) throwingEngine)) ''not'' 0 = Some False \<and>
   tick noHost (-1) throwingEngine = Inr (after (tick noHost (-1) throwingEngine)) \<and>
   outputOf (after (tick noHost (-1) throwingEngine)) ''not'' 0 = Some True"
proof (intro conjI)
  show "map typ_of (nodes throwingEngine) = [IC, NOT]" by code_simp
  show "compiledFunction (core throwingIC) = Some ''throw 0''" by code_simp
  show "isl (tick throwingHost (-1) throwingEngine)" by code_simp
  show "tick throwingHost (-1) throwingEngine
     = Inl (RuntimeError, after (tick throwingHost (-1) throwingEngine))" by code_simp
  show "inputOf (after (tick throwingHost (-1) throwingEngine)) ''not'' 0 = Some False" by code_simp
  show "outputOf (after (tick throwingHost (-1) throwingEngine)) ''not'' 0 = Some False" by code_simp
  show "tick noHost (-1) throwingEngine = Inr (after (tick noHost (-1) throwingEngine))" by code_simp
  show "outputOf (after (tick noHost (-1) throwingEngine)) ''not'' 0 = Some True" by code_simp
qed

text \<open>
  C4, amended. Evaluating an IC node inside the tick loop: when the node carries a code
  body for which no callable is cached and which the host rejects, the step returns
  normally, leaves the node, its outputs included, and the cache as they were, and the
  loop goes on with the next node; when the node carries no code body but a truth table
  without a row for the bit string of its inputs, the step leaves the node as it was and
  the loop goes on. When the body compiles and the callable throws when it is called, the
  error is not caught: the loop ends at this node with the error, the callable cached and
  the nodes from this one on as they were. (The log line is not part of the state.)
\<close>

theorem ic_failure_leaves_outputs:
  assumes "typ_of n = IC"
  shows "(has_code (core n) \<and> map_of cache (nid n) = None \<and> h (the (compiledFunction (core n))) = None
            \<longrightarrow> evalNode h cache n = Inr (cache, n) \<and>
                computeLogic h cache (n # rest) =
                  (case computeLogic h cache rest of (c, ns, r) \<Rightarrow> (c, n # ns, r))) \<and>
         (\<not> has_code (core n) \<and> truthTable (core n) = Some tt \<and> map_of tt (tableKey (inputs (core n))) = None
            \<longrightarrow> evalNode h cache n = Inr (cache, n) \<and>
                computeLogic h cache (n # rest) =
                  (case computeLogic h cache rest of (c, ns, r) \<Rightarrow> (c, n # ns, r))) \<and>
         (has_code (core n) \<and> map_of cache (nid n) = None \<and> h (the (compiledFunction (core n))) = Some f \<and>
          f (mapInputs (core n)) (state_or_empty (internalState (core n))) = Throws
            \<longrightarrow> evalNode h cache n
                  = Inl (RuntimeError, cache @ [(nid n, the (compiledFunction (core n)))]) \<and>
                computeLogic h cache (n # rest)
                  = (cache @ [(nid n, the (compiledFunction (core n)))], n # rest, Some RuntimeError))"
  using assms by (auto simp: evalNode_def evalIC_def Let_def)

theorem ic_failure_leaves_outputs_witness:
  "typ_of brokenIC = IC \<and> has_code (core brokenIC) \<and> map_of [] (nid brokenIC) = (None :: string option) \<and>
   noHost (the (compiledFunction (core brokenIC))) = None \<and>
   evalNode noHost [] brokenIC = Inr ([], brokenIC) \<and>
   computeLogic noHost [] [brokenIC] = ([], [brokenIC], None) \<and>
   typ_of tableIC = IC \<and> \<not> has_code (core tableIC) \<and>
   truthTable (core tableIC) = Some [(''11'', [1])] \<and>
   tableKey (inputs (core tableIC)) = ''10'' \<and>
   map_of [(''11'', [1::real])] (tableKey (inputs (core tableIC))) = None \<and>
   evalNode noHost [] tableIC = Inr ([], tableIC) \<and>
   typ_of throwingIC = IC \<and> has_code (core throwingIC) \<and>
   evalNode throwingHost [] throwingIC = Inl (RuntimeError, [(''ic'', ''throw 0'')]) \<and>
   computeLogic throwingHost [] [throwingIC, newNode ''not'' NOT \<lparr>px = 100, py = 0\<rparr>]
     = ([(''ic'', ''throw 0'')], [throwingIC, newNode ''not'' NOT \<lparr>px = 100, py = 0\<rparr>],
        Some RuntimeError)"
proof -
  have a1: "typ_of brokenIC = IC" by code_simp
  have a2: "has_code (core brokenIC)" by code_simp
  have a3: "map_of [] (nid brokenIC) = (None :: string option)" by simp
  have a4: "noHost (the (compiledFunction (core brokenIC))) = None" by (simp add: noHost_def)
  have b1: "typ_of tableIC = IC" by code_simp
  have b2: "\<not> has_code (core tableIC)" by code_simp
  have b3: "truthTable (core tableIC) = Some [(''11'', [1])]" by code_simp
  have b4: "tableKey (inputs (core tableIC)) = ''10''" by code_simp
  have b5: "map_of [(''11'', [1::real])] (tableKey (inputs (core tableIC))) = None" unfolding b4 by simp
  have t1: "typ_of throwingIC = IC" by code_simp
  have t2: "has_code (core throwingIC)" by code_simp
  have t3: "map_of [] (nid throwingIC) = (None :: string option)" by simp
  have t4: "the (compiledFunction (core throwingIC)) = ''throw 0''" by code_simp
  have t5: "nid throwingIC = ''ic''" by code_simp
  have t6: "throwingHost ''throw 0'' = Some (\<lambda>inputs state. Throws)" by (simp add: throwingHost_def)
  from ic_failure_leaves_outputs[OF a1, where cache = "[]" and h = noHost and rest = "[]"] a2 a3 a4
  have c1: "evalNode noHost [] brokenIC = Inr ([], brokenIC)"
    and c1': "computeLogic noHost [] [brokenIC] = ([], [brokenIC], None)" by simp_all
  from ic_failure_leaves_outputs[OF b1, where cache = "[]" and h = noHost and tt = "[(''11'', [1])]"] b2 b3 b5
  have c2: "evalNode noHost [] tableIC = Inr ([], tableIC)" by blast
  from ic_failure_leaves_outputs[OF t1, where cache = "[]" and h = throwingHost
      and f = "\<lambda>inputs state. Throws" and rest = "[newNode ''not'' NOT \<lparr>px = 100, py = 0\<rparr>]"]
    t2 t3 t6
  have c3: "evalNode throwingHost [] throwingIC = Inl (RuntimeError, [(''ic'', ''throw 0'')])"
    and c3': "computeLogic throwingHost [] [throwingIC, newNode ''not'' NOT \<lparr>px = 100, py = 0\<rparr>]
     = ([(''ic'', ''throw 0'')], [throwingIC, newNode ''not'' NOT \<lparr>px = 100, py = 0\<rparr>],
        Some RuntimeError)"
    unfolding t4 t5 by simp_all
  from a1 a2 a3 a4 b1 b2 b3 b4 b5 c1 c1' c2 t1 t2 c3 c3' show ?thesis by blast
qed

subsection \<open>Pin remapping\<close>

lemma indexOf_Some:
  "indexOf xs v = Some q \<Longrightarrow> q < length xs \<and> xs ! q = Val v"
proof (induction xs arbitrary: q)
  case Nil
  then show ?case by simp
next
  case (Cons x xs)
  then show ?case by (auto split: if_splits)
qed

lemma indexOf_None: "indexOf xs v = None \<Longrightarrow> Val v \<notin> set xs"
  by (induction xs) (auto split: if_splits)

lemma perm_length: "is_permutation n m \<Longrightarrow> length m = n"
  unfolding is_permutation_def identityMapping_def
  by (metis length_map length_upt mset_eq_length minus_nat.diff_0)

lemma perm_set: "is_permutation n m \<Longrightarrow> set m = Val ` {..<n}"
  unfolding is_permutation_def identityMapping_def
  by (metis atLeast_upt mset_eq_setD set_map)

lemma perm_distinct: "is_permutation n m \<Longrightarrow> distinct m"
proof -
  assume "is_permutation n m"
  then have "mset m = mset (map Val [0..<n])" by (simp add: is_permutation_def identityMapping_def)
  moreover have "distinct (map Val [0..<n] :: nat slot list)" by (simp add: distinct_map inj_on_def)
  ultimately show ?thesis by (metis mset_eq_imp_distinct_iff)
qed

lemma remap_in_range:
  assumes "is_permutation n m" "p < n" "v < n"
  shows "\<exists>q old. q < n \<and> m ! q = Val v \<and> m ! p = Val old \<and>
           remap m p v = (if q = p then m else m[q := Val old, p := Val v])"
proof -
  from perm_length[OF assms(1)] have len: "length m = n" .
  from perm_set[OF assms(1)] assms(3) have "Val v \<in> set m" by auto
  with indexOf_None[of m v] obtain q where q: "indexOf m v = Some q" by (cases "indexOf m v") blast+
  from indexOf_Some[OF q] len have q': "q < n" "m ! q = Val v" by simp_all
  from assms(2) len have "m ! p \<in> set m" by simp
  with perm_set[OF assms(1)] obtain old where old: "m ! p = Val old" by auto
  have g: "js_get m p = Some old" using old assms(2) len by (simp add: js_get_def)
  have "remap m p v = (if q = p then m else m[q := Val old, p := Val v])"
  proof (cases "q = p")
    case True
    with q' have "m[p := Val v] = m" using list_update_id[of m p] by simp
    with True q len assms(2) show ?thesis by (simp add: remap_def js_set_def)
  next
    case False
    with q g q' len assms(2) show ?thesis
      by (simp add: remap_def Let_def js_set_def to_slot_def)
  qed
  with q' old show ?thesis by blast
qed

lemma remap_perm:
  assumes "is_permutation n m" "p < n" "v < n"
  shows "is_permutation n (remap m p v)"
proof -
  from remap_in_range[OF assms] obtain q old where
    r: "q < n" "m ! q = Val v" "m ! p = Val old"
       "remap m p v = (if q = p then m else m[q := Val old, p := Val v])" by blast
  from perm_length[OF assms(1)] have len: "length m = n" .
  show ?thesis
  proof (cases "q = p")
    case True
    with r(4) assms(1) show ?thesis by simp
  next
    case False
    have "mset (m[q := m ! p, p := m ! q]) = mset m"
      using r(1) assms(2) len by (simp add: mset_swap)
    with r False assms(1) show ?thesis by (simp add: is_permutation_def)
  qed
qed

lemma remap_swaps:
  assumes "is_permutation n m" "p < n" "v < n"
  shows "remap m p v ! p = Val v \<and>
         (\<forall>q < n. q \<noteq> p \<longrightarrow> remap m p v ! q = (if m ! q = Val v then m ! p else m ! q))"
proof -
  from remap_in_range[OF assms] obtain q0 old where
    r: "q0 < n" "m ! q0 = Val v" "m ! p = Val old"
       "remap m p v = (if q0 = p then m else m[q0 := Val old, p := Val v])" by blast
  from perm_length[OF assms(1)] have len: "length m = n" .
  from perm_distinct[OF assms(1)] have d: "distinct m" .
  have uniq: "q = q0" if "q < n" "m ! q = Val v" for q
    using nth_eq_iff_index_eq[OF d, of q q0] that r(1,2) len by simp
  show ?thesis
  proof (cases "q0 = p")
    case True
    with r have e: "remap m p v = m" "m ! p = Val v" by simp_all
    have "\<forall>q < n. q \<noteq> p \<longrightarrow> m ! q \<noteq> Val v" using uniq True by blast
    with e show ?thesis by simp
  next
    case False
    with r have e: "remap m p v = m[q0 := Val old, p := Val v]" by simp
    have a: "remap m p v ! p = Val v" unfolding e using assms(2) len by simp
    have b: "remap m p v ! q = (if m ! q = Val v then m ! p else m ! q)" if "q < n" "q \<noteq> p" for q
    proof (cases "q = q0")
      case True
      with that r len show ?thesis unfolding e by simp
    next
      case False
      with uniq[OF that(1)] have "m ! q \<noteq> Val v" by blast
      with False that show ?thesis unfolding e by simp
    qed
    from a b show ?thesis by blast
  qed
qed


lemma identity_is_permutation: "is_permutation n (identityMapping n)"
  by (simp add: is_permutation_def)

lemma nodes_saveState: "nodes (saveState s) = nodes s"
  by (simp add: saveState_def Let_def)

lemma updateIOMapping_node:
  assumes "getNode (nodes s) k = Some nd" "typ_of nd = IC"
  shows "\<exists>nd'. getNode (nodes (updateIOMapping k d p v s)) k = Some nd' \<and> typ_of nd' = IC \<and>
           countOf Input (core nd') = countOf Input (core nd) \<and>
           countOf Output (core nd') = countOf Output (core nd) \<and>
           mappingOf d (core nd') = remap (mappingOf d (core nd)) p v \<and>
           (\<forall>d'. d' \<noteq> d \<longrightarrow> mappingOf d' (core nd') = mappingOf d' (core nd))"
proof -
  let ?f = "\<lambda>c. case d of
               Input \<Rightarrow> c\<lparr>inputMapping := Some (remap
                     (case inputMapping c of
                        None \<Rightarrow> identityMapping (count_or0 (inputCount c))
                      | Some m \<Rightarrow> m) p v)\<rparr>
             | Output \<Rightarrow> c\<lparr>outputMapping := Some (remap
                     (case outputMapping c of
                        None \<Rightarrow> identityMapping (count_or0 (outputCount c))
                      | Some m \<Rightarrow> m) p v)\<rparr>"
  have idf: "\<And>c. node_id (?f c) = node_id c" by (cases d) simp_all
  from getNode_nid[OF assms(1)] have nk: "nid nd = k" by simp
  have e: "nodes (updateIOMapping k d p v s) = modifyNode k ?f (nodes s)"
    using assms by (simp add: updateIOMapping_def Let_def nodes_saveState)
  have g: "getNode (nodes (updateIOMapping k d p v s)) k = Some (upd ?f nd)"
    unfolding e getNode_modifyNode[of ?f, OF idf] assms(1) using nk by simp
  have "typ_of (upd ?f nd) = IC" using assms(2) by (cases d) (simp_all add: upd_def typ_of_def)
  moreover have "countOf Input (core (upd ?f nd)) = countOf Input (core nd)"
    by (cases d) (simp_all add: upd_def countOf_def)
  moreover have "countOf Output (core (upd ?f nd)) = countOf Output (core nd)"
    by (cases d) (simp_all add: upd_def countOf_def)
  moreover have "mappingOf d (core (upd ?f nd)) = remap (mappingOf d (core nd)) p v"
    by (cases d) (simp_all add: upd_def mappingOf_def countOf_def split: option.splits)
  moreover have "\<forall>d'. d' \<noteq> d \<longrightarrow> mappingOf d' (core (upd ?f nd)) = mappingOf d' (core nd)"
  proof (intro allI impI)
    fix d' :: pin_dir assume "d' \<noteq> d"
    then show "mappingOf d' (core (upd ?f nd)) = mappingOf d' (core nd)"
      by (cases d; cases d') (simp_all add: upd_def mappingOf_def countOf_def split: option.splits)
  qed
  ultimately show ?thesis using g by blast
qed

lemma remapAll_perm:
  assumes "getNode (nodes s) k = Some nd" "typ_of nd = IC"
    and "\<forall>d. is_permutation (countOf d (core nd)) (mappingOf d (core nd))"
    and "\<forall>(d, p, v) \<in> set calls. p < countOf d (core nd) \<and> v < countOf d (core nd)"
  shows "\<exists>nd'. getNode (nodes (remapAll k calls s)) k = Some nd' \<and> typ_of nd' = IC \<and>
           (\<forall>d. countOf d (core nd') = countOf d (core nd) \<and>
                is_permutation (countOf d (core nd)) (mappingOf d (core nd')))"
  using assms
proof (induction calls arbitrary: s nd)
  case Nil
  then show ?case by simp
next
  case (Cons c calls)
  obtain d p v where c: "c = (d, p, v)" by (cases c)
  from Cons.prems(4) c have rng: "p < countOf d (core nd)" "v < countOf d (core nd)" by simp_all
  from updateIOMapping_node[OF Cons.prems(1,2), of d p v] obtain nd1 where
    n1: "getNode (nodes (updateIOMapping k d p v s)) k = Some nd1" "typ_of nd1 = IC"
        "countOf Input (core nd1) = countOf Input (core nd)"
        "countOf Output (core nd1) = countOf Output (core nd)"
        "mappingOf d (core nd1) = remap (mappingOf d (core nd)) p v"
        "\<forall>d'. d' \<noteq> d \<longrightarrow> mappingOf d' (core nd1) = mappingOf d' (core nd)" by blast
  have cnt: "countOf d' (core nd1) = countOf d' (core nd)" for d'
    using n1(3,4) by (cases d') simp_all
  have perm1: "\<forall>d'. is_permutation (countOf d' (core nd1)) (mappingOf d' (core nd1))"
  proof
    fix d'
    show "is_permutation (countOf d' (core nd1)) (mappingOf d' (core nd1))"
    proof (cases "d' = d")
      case True
      from remap_perm[OF Cons.prems(3)[rule_format, of d] rng] n1(5) True cnt show ?thesis by simp
    next
      case False
      with n1(6) Cons.prems(3) cnt show ?thesis by simp
    qed
  qed
  from Cons.prems(4) cnt have rng1: "\<forall>(d, p, v) \<in> set calls. p < countOf d (core nd1) \<and> v < countOf d (core nd1)"
    by auto
  from Cons.IH[OF n1(1,2) perm1 rng1] cnt c show ?case by simp
qed

text \<open>
  C7. Take an IC node whose input and output mappings are unset or permutations of
  \<open>0..n-1\<close> (inputs) and \<open>0..m-1\<close> (outputs), \<open>n\<close> and \<open>m\<close> the declared counts. After any
  sequence of \<^verbatim>\<open>updateIOMapping\<close> calls on it whose pin and port indices are below the
  count of their direction, the node is still an IC with the same counts and each mapping
  (the identity while unset) is a permutation of \<open>0..count-1\<close>. One call puts port \<open>v\<close> on
  pin \<open>p\<close>; the pin that held \<open>v\<close> before takes the port \<open>p\<close> held; every other pin keeps
  its port.
\<close>

theorem mapping_stays_permutation:
  assumes "getNode (nodes s) k = Some nd" and "typ_of nd = IC"
    and "\<forall>d. is_permutation (countOf d (core nd)) (mappingOf d (core nd))"
  shows "((\<forall>(d, p, v) \<in> set calls. p < countOf d (core nd) \<and> v < countOf d (core nd)) \<longrightarrow>
            (\<exists>nd'. getNode (nodes (remapAll k calls s)) k = Some nd' \<and> typ_of nd' = IC \<and>
               (\<forall>d. countOf d (core nd') = countOf d (core nd) \<and>
                    is_permutation (countOf d (core nd)) (mappingOf d (core nd'))))) \<and>
         (p < countOf d (core nd) \<and> v < countOf d (core nd) \<longrightarrow>
            (\<exists>nd'. getNode (nodes (updateIOMapping k d p v s)) k = Some nd' \<and>
               mappingOf d (core nd') ! p = Val v \<and>
               (\<forall>q < countOf d (core nd). q \<noteq> p \<longrightarrow>
                  mappingOf d (core nd') ! q =
                    (if mappingOf d (core nd) ! q = Val v then mappingOf d (core nd) ! p
                     else mappingOf d (core nd) ! q))))"
proof (intro conjI impI)
  assume "\<forall>(d, p, v) \<in> set calls. p < countOf d (core nd) \<and> v < countOf d (core nd)"
  from remapAll_perm[OF assms this]
  show "\<exists>nd'. getNode (nodes (remapAll k calls s)) k = Some nd' \<and> typ_of nd' = IC \<and>
               (\<forall>d. countOf d (core nd') = countOf d (core nd) \<and>
                    is_permutation (countOf d (core nd)) (mappingOf d (core nd')))" .
next
  assume r: "p < countOf d (core nd) \<and> v < countOf d (core nd)"
  from updateIOMapping_node[OF assms(1,2), of d p v] obtain nd1 where
    n1: "getNode (nodes (updateIOMapping k d p v s)) k = Some nd1"
        "mappingOf d (core nd1) = remap (mappingOf d (core nd)) p v" by blast
  from remap_swaps[OF assms(3)[rule_format, of d]] r n1
  show "\<exists>nd'. getNode (nodes (updateIOMapping k d p v s)) k = Some nd' \<and>
               mappingOf d (core nd') ! p = Val v \<and>
               (\<forall>q < countOf d (core nd). q \<noteq> p \<longrightarrow>
                  mappingOf d (core nd') ! q =
                    (if mappingOf d (core nd) ! q = Val v then mappingOf d (core nd) ! p
                     else mappingOf d (core nd) ! q))" by simp
qed

theorem mapping_stays_permutation_witness:
  "getNode (nodes icEngine) ''chip'' \<noteq> None \<and>
   typ_of (the (getNode (nodes icEngine) ''chip'')) = IC \<and>
   countOf Input (core (the (getNode (nodes icEngine) ''chip''))) = 3 \<and>
   countOf Output (core (the (getNode (nodes icEngine) ''chip''))) = 2 \<and>
   mappingOf Input (core (the (getNode (nodes icEngine) ''chip''))) = [Val 0, Val 1, Val 2] \<and>
   mappingOf Input (core (the (getNode
      (nodes (remapAll ''chip'' [(Input, 0, 2), (Input, 1, 2), (Output, 0, 1)] icEngine)) ''chip'')))
     = [Val 1, Val 2, Val 0] \<and>
   is_permutation 3 (mappingOf Input (core (the (getNode
      (nodes (remapAll ''chip'' [(Input, 0, 2), (Input, 1, 2), (Output, 0, 1)] icEngine)) ''chip'')))) \<and>
   is_permutation 2 (mappingOf Output (core (the (getNode
      (nodes (remapAll ''chip'' [(Input, 0, 2), (Input, 1, 2), (Output, 0, 1)] icEngine)) ''chip'')))) \<and>
   mappingOf Input (core (the (getNode (nodes (updateIOMapping ''chip'' Input 0 2 icEngine)) ''chip'')))
     = [Val 2, Val 1, Val 0]"
proof -
  let ?nd = "the (getNode (nodes icEngine) ''chip'')"
  let ?calls = "[(Input, 0, 2), (Input, 1, 2), (Output, 0, 1)] :: (pin_dir \<times> nat \<times> nat) list"
  let ?s' = "remapAll ''chip'' ?calls icEngine"
  have g: "getNode (nodes icEngine) ''chip'' = Some ?nd" by code_simp
  have g': "getNode (nodes icEngine) ''chip'' \<noteq> None" by code_simp
  have ty: "typ_of ?nd = IC" by code_simp
  have ci: "countOf Input (core ?nd) = 3" by code_simp
  have co: "countOf Output (core ?nd) = 2" by code_simp
  have mi: "mappingOf Input (core ?nd) = [Val 0, Val 1, Val 2]" by code_simp
  have mo: "mappingOf Output (core ?nd) = identityMapping 2" by code_simp
  have mi': "mappingOf Input (core ?nd) = identityMapping 3" by code_simp
  have perm: "\<forall>d. is_permutation (countOf d (core ?nd)) (mappingOf d (core ?nd))"
  proof
    fix d show "is_permutation (countOf d (core ?nd)) (mappingOf d (core ?nd))"
      by (cases d) (simp_all add: ci co mi' mo identity_is_permutation)
  qed
  have rng: "\<forall>(d, p, v) \<in> set ?calls. p < countOf d (core ?nd) \<and> v < countOf d (core ?nd)"
    by (simp add: ci co)
  have r1: "mappingOf Input (core (the (getNode (nodes ?s') ''chip''))) = [Val 1, Val 2, Val 0]"
    by code_simp
  have r2: "mappingOf Input (core (the (getNode (nodes (updateIOMapping ''chip'' Input 0 2 icEngine)) ''chip'')))
     = [Val 2, Val 1, Val 0]" by code_simp
  from mapping_stays_permutation[OF g ty perm, THEN conjunct1, THEN mp, OF rng]
  obtain nd' where n: "getNode (nodes ?s') ''chip'' = Some nd'"
     "\<forall>d. countOf d (core nd') = countOf d (core ?nd) \<and>
          is_permutation (countOf d (core ?nd)) (mappingOf d (core nd'))" by blast
  from n(1) have e: "the (getNode (nodes ?s') ''chip'') = nd'" by simp
  from n(2)[rule_format, of Input] ci e
  have p1: "is_permutation 3 (mappingOf Input (core (the (getNode (nodes ?s') ''chip''))))" by simp
  from n(2)[rule_format, of Output] co e
  have p2: "is_permutation 2 (mappingOf Output (core (the (getNode (nodes ?s') ''chip''))))" by simp
  from g' ty ci co mi r1 p1 p2 r2 show ?thesis by blast
qed

subsection \<open>Undo after an operation that saves no checkpoint of its result\<close>

text \<open>
  C8 does not hold for \<^verbatim>\<open>deleteSelected\<close>: it saves a checkpoint before deleting and none
  after, so the top of the history is the state before the deletion; \<^verbatim>\<open>undo\<close> pops that
  entry and restores the one below it. On the constructor's engine with the light selected:
  after the deletion three nodes are left, \<^verbatim>\<open>undo\<close> leaves the same three (the light
  does not come back), and \<^verbatim>\<open>redo\<close> then brings back the four nodes from before the
  deletion.
\<close>

theorem undo_after_delete_keeps_deletion:
  "map nid (nodes demoEngine) = [''sw1'', ''sw2'', ''and'', ''light''] \<and>
   map nid (nodes (deleteSelected (demoEngine\<lparr>selectedNodeIds := [''light'']\<rparr>)))
     = [''sw1'', ''sw2'', ''and''] \<and>
   map nid (nodes (undo (deleteSelected (demoEngine\<lparr>selectedNodeIds := [''light'']\<rparr>))))
     = [''sw1'', ''sw2'', ''and''] \<and>
   map nid (nodes (redo (undo (deleteSelected (demoEngine\<lparr>selectedNodeIds := [''light'']\<rparr>)))))
     = [''sw1'', ''sw2'', ''and'', ''light'']"
proof (intro conjI)
  show "map nid (nodes demoEngine) = [''sw1'', ''sw2'', ''and'', ''light'']" by code_simp
  show "map nid (nodes (deleteSelected (demoEngine\<lparr>selectedNodeIds := [''light'']\<rparr>)))
     = [''sw1'', ''sw2'', ''and'']" by code_simp
  show "map nid (nodes (undo (deleteSelected (demoEngine\<lparr>selectedNodeIds := [''light'']\<rparr>))))
     = [''sw1'', ''sw2'', ''and'']" by code_simp
  show "map nid (nodes (redo (undo (deleteSelected (demoEngine\<lparr>selectedNodeIds := [''light'']\<rparr>)))))
     = [''sw1'', ''sw2'', ''and'', ''light'']" by code_simp
qed

text \<open>
  Where the checkpoint is saved after the change, as when a wire is connected, \<^verbatim>\<open>undo\<close>
  does restore the state before the operation and \<^verbatim>\<open>redo\<close> the state after it.
\<close>

lemma undo_after_pushWire_restores:
  "serialize (undo (pushWire ''w1'' (''sw1'', 0) (''and'', 0) demoEngine)) = serialize demoEngine \<and>
   serialize (redo (undo (pushWire ''w1'' (''sw1'', 0) (''and'', 0) demoEngine)))
     = serialize (pushWire ''w1'' (''sw1'', 0) (''and'', 0) demoEngine)"
  by code_simp

subsection \<open>Wires after nodes are removed\<close>

text \<open>
  Deleting the selection and packing a group prune every wire that touches a removed node:
  if no wire dangles before, none does after.
\<close>

lemma getNode_None_iff: "getNode ns k = None \<longleftrightarrow> k \<notin> nid ` set ns"
  by (auto simp: getNode_def find_None_iff)

lemma noDangling_iff:
  "noDangling s \<longleftrightarrow>
     (\<forall>w \<in> set (wires s). sourceNodeId w \<in> nid ` set (nodes s) \<and> targetNodeId w \<in> nid ` set (nodes s))"
  by (simp add: noDangling_def list_all_iff getNode_None_iff)

lemma wires_saveState: "wires (saveState s) = wires s"
  by (simp add: saveState_def Let_def)

lemma noDangling_saveState: "noDangling (saveState s) = noDangling s"
  by (simp add: noDangling_def nodes_saveState wires_saveState)

lemma fold_invariant:
  "(\<And>x s. P s \<Longrightarrow> P (f x s)) \<Longrightarrow> P s \<Longrightarrow> P (fold f xs s)"
  by (induction xs arbitrary: s) simp_all

lemma nid_upd_groupId: "nid (if c then upd (\<lambda>c. c\<lparr>groupId := g\<rparr>) n else n) = nid n"
  by (simp add: nid_def upd_def)

lemma deleteSelected_noDangling:
  assumes "noDangling s"
  shows "noDangling (deleteSelected s)"
proof (cases "selectedNodeIds s = [] \<and> selectedWireIds s = []")
  case True
  with assms show ?thesis by (simp add: deleteSelected_def)
next
  case False
  let ?step = "\<lambda>k e. e\<lparr>nodes := map (\<lambda>n. if groupId (core n) = Some k
                                            then upd (\<lambda>c. c\<lparr>groupId := None\<rparr>) n else n)
                                     (deleteNode (nodes e) k),
                       wires := filter (\<lambda>w. \<not> touches k w) (wires e),
                       fnCache := filter (\<lambda>(i, b). i \<noteq> k) (fnCache e)\<rparr>"
  let ?s1 = "saveState s"
  let ?s2 = "fold ?step (selectedNodeIds ?s1) ?s1"
  have step: "noDangling (?step k e)" if "noDangling e" for k e
  proof -
    let ?f = "\<lambda>n. if groupId (core n) = Some k then upd (\<lambda>c. c\<lparr>groupId := None\<rparr>) n else n"
    have "map nid (map ?f xs) = map nid xs" for xs
      by (induction xs) (simp_all add: nid_def upd_def)
    then have "set (map nid (map ?f (deleteNode (nodes e) k))) = set (map nid (deleteNode (nodes e) k))"
      by simp
    then have "nid ` set (map ?f (deleteNode (nodes e) k)) = nid ` set (deleteNode (nodes e) k)"
      by (simp only: set_map)
    moreover have "nid ` set (deleteNode (nodes e) k) = nid ` set (nodes e) - {k}"
      by (auto simp: deleteNode_def)
    ultimately have ids: "nid ` set (nodes (?step k e)) = nid ` set (nodes e) - {k}"
      by simp
    show ?thesis
      unfolding noDangling_iff ids using that[unfolded noDangling_iff]
      by (auto simp: touches_def)
  qed
  have s1: "noDangling ?s1" using assms by (simp add: noDangling_saveState)
  have s2: "noDangling ?s2"
  proof (rule fold_invariant[where P = noDangling])
    fix x e assume "noDangling e"
    then show "noDangling (?step x e)" by (rule step)
  next
    show "noDangling ?s1" by (fact s1)
  qed
  let ?s3 = "if selectedWireIds ?s2 \<noteq> []
             then ?s2\<lparr>wires := filter (\<lambda>w. wire_id w \<notin> set (selectedWireIds ?s2)) (wires ?s2)\<rparr>
             else ?s2"
  have s3: "noDangling ?s3" using s2 by (auto simp: noDangling_iff)
  have "deleteSelected s = ?s3\<lparr>selectedNodeIds := [], selectedWireIds := []\<rparr>"
    using False unfolding deleteSelected_def Let_def by (simp only: if_False)
  moreover have "noDangling (?s3\<lparr>selectedNodeIds := [], selectedWireIds := []\<rparr>)"
    using s3 by (simp add: noDangling_iff)
  ultimately show ?thesis by simp
qed


lemma ids_setNode: "nid ` set (setNode ns n) = insert (nid n) (nid ` set ns)"
proof (cases "nid n \<in> nid ` set ns")
  case True
  have "map nid (map (\<lambda>m. if nid m = nid n then n else m) ns) = map nid ns"
    by (induction ns) simp_all
  then have "set (map nid (map (\<lambda>m. if nid m = nid n then n else m) ns)) = set (map nid ns)"
    by simp
  then have "nid ` set (map (\<lambda>m. if nid m = nid n then n else m) ns) = nid ` set ns"
    by (simp only: set_map)
  with True show ?thesis by (auto simp: setNode_def)
next
  case False
  then show ?thesis by (simp add: setNode_def)
qed

lemma nid_icNodeOf: "nid (icNodeOf g gn I ins outs ws) = g"
  by (simp add: icNodeOf_def Let_def nid_def)

lemma pack_result:
  "packGroupToIC s = s \<or>
   (\<exists>I g ic. nid ic = g \<and>
      nodes (packGroupToIC s) =
        setNode (deleteNode (filter (\<lambda>n. \<not> isInternal I (nid n)) (nodes s)) g) ic \<and>
      wires (packGroupToIC s) =
        filter (\<lambda>w. \<not> isInternal I (sourceNodeId w) \<and> \<not> isInternal I (targetNodeId w)) (wires s))"
proof (cases "find (\<lambda>k. map_option typ_of (getNode (nodes s) k) = Some GROUP) (selectedNodeIds s)")
  case None
  then show ?thesis by (simp add: packGroupToIC_def)
next
  case (Some g)
  show ?thesis
  proof (cases "getNode (nodes s) g")
    case None
    with Some show ?thesis by (simp add: packGroupToIC_def)
  next
    case (Some gn)
    note gn = this
    let ?I = "filter (\<lambda>n. groupId (core n) = Some g) (nodes s)"
    let ?ins = "sort_key (\<lambda>n. py (position (core n))) (filter (\<lambda>n. typ_of n = SWITCH) ?I)"
    let ?outs = "sort_key (\<lambda>n. py (position (core n))) (filter (\<lambda>n. typ_of n = LIGHT) ?I)"
    show ?thesis
    proof (cases "g = [] \<or> (?ins = [] \<and> ?outs = [])")
      case True
      with \<open>find _ _ = Some g\<close> gn have "packGroupToIC s = s"
        unfolding packGroupToIC_def Let_def by auto
      then show ?thesis by simp
    next
      case False
      let ?ws = "filter (\<lambda>w. isInternal ?I (sourceNodeId w) \<and> isInternal ?I (targetNodeId w)) (wires s)"
      let ?ic = "icNodeOf g gn ?I ?ins ?outs ?ws"
      from False have g0: "\<not> g = []" and ne: "\<not> (?ins = [] \<and> ?outs = [])" by auto
      have e: "packGroupToIC s = (saveState s)\<lparr>nodes := setNode (deleteNode
                 (filter (\<lambda>n. \<not> isInternal ?I (nid n)) (nodes s)) g) ?ic,
               wires := filter (\<lambda>w. \<not> isInternal ?I (sourceNodeId w) \<and>
                                     \<not> isInternal ?I (targetNodeId w)) (wires s),
               selectedNodeIds := [g]\<rparr>"
        unfolding packGroupToIC_def Let_def \<open>find _ _ = Some g\<close> option.case gn
          if_not_P[OF g0] if_not_P[OF ne] nodes_saveState wires_saveState
        by (rule refl)
      have "nid ?ic = g" by (rule nid_icNodeOf)
      moreover have "nodes (packGroupToIC s) =
        setNode (deleteNode (filter (\<lambda>n. \<not> isInternal ?I (nid n)) (nodes s)) g) ?ic"
        unfolding e by simp
      moreover have "wires (packGroupToIC s) =
        filter (\<lambda>w. \<not> isInternal ?I (sourceNodeId w) \<and> \<not> isInternal ?I (targetNodeId w)) (wires s)"
        unfolding e by simp
      ultimately show ?thesis by blast
    qed
  qed
qed

lemma packGroupToIC_noDangling:
  assumes "noDangling s"
  shows "noDangling (packGroupToIC s)"
proof -
  from pack_result[of s] show ?thesis
  proof
    assume "packGroupToIC s = s"
    with assms show ?thesis by simp
  next
    assume "\<exists>I g ic. nid ic = g \<and>
      nodes (packGroupToIC s) =
        setNode (deleteNode (filter (\<lambda>n. \<not> isInternal I (nid n)) (nodes s)) g) ic \<and>
      wires (packGroupToIC s) =
        filter (\<lambda>w. \<not> isInternal I (sourceNodeId w) \<and> \<not> isInternal I (targetNodeId w)) (wires s)"
    then obtain I g ic where r: "nid ic = g"
      "nodes (packGroupToIC s) =
        setNode (deleteNode (filter (\<lambda>n. \<not> isInternal I (nid n)) (nodes s)) g) ic"
      "wires (packGroupToIC s) =
        filter (\<lambda>w. \<not> isInternal I (sourceNodeId w) \<and> \<not> isInternal I (targetNodeId w)) (wires s)"
      by blast
    have ids: "nid ` set (nodes (packGroupToIC s))
        = insert g ({k \<in> nid ` set (nodes s). \<not> isInternal I k} - {g})"
      unfolding r(2) ids_setNode r(1) by (auto simp: deleteNode_def)
    show ?thesis
      unfolding noDangling_iff ids r(3) using assms[unfolded noDangling_iff] by auto
  qed
qed

text \<open>
  C6 does not hold for \<^verbatim>\<open>unpackICToGroup\<close>: it deletes the IC node and filters no wire.
  The packed demo chip with a third switch wired to its first input pin has no dangling
  wire; after the chip is unpacked the wire from the switch still names the deleted chip
  as its target. The next tick skips the wire and completes.
\<close>

theorem unpack_leaves_dangling_wire:
  "noDangling packedWithSwitch \<and>
   selectedNodeIds packedWithSwitch = [''grp''] \<and>
   map nid (nodes packedWithSwitch) = [''grp'', ''sw3''] \<and>
   map nid (nodes (unpackICToGroup demoIds packedWithSwitch))
     = [''sw3'', ''grp2'', ''n1'', ''n2'', ''n3'', ''n4''] \<and>
   hd (wires (unpackICToGroup demoIds packedWithSwitch))
     = \<lparr>wire_id = ''w4'', sourceNodeId = ''sw3'', sourcePinIndex = 0,
        targetNodeId = ''grp'', targetPinIndex = 0, state = False\<rparr> \<and>
   getNode (nodes (unpackICToGroup demoIds packedWithSwitch)) ''grp'' = None \<and>
   \<not> noDangling (unpackICToGroup demoIds packedWithSwitch) \<and>
   tick noHost (-1) (unpackICToGroup demoIds packedWithSwitch)
     = Inr (after (tick noHost (-1) (unpackICToGroup demoIds packedWithSwitch)))"
proof (intro conjI)
  show "noDangling packedWithSwitch" by code_simp
  show "selectedNodeIds packedWithSwitch = [''grp'']" by code_simp
  show "map nid (nodes packedWithSwitch) = [''grp'', ''sw3'']" by code_simp
  show "map nid (nodes (unpackICToGroup demoIds packedWithSwitch))
     = [''sw3'', ''grp2'', ''n1'', ''n2'', ''n3'', ''n4'']" by code_simp
  show "hd (wires (unpackICToGroup demoIds packedWithSwitch))
     = \<lparr>wire_id = ''w4'', sourceNodeId = ''sw3'', sourcePinIndex = 0,
        targetNodeId = ''grp'', targetPinIndex = 0, state = False\<rparr>" by code_simp
  show "getNode (nodes (unpackICToGroup demoIds packedWithSwitch)) ''grp'' = None" by code_simp
  show "\<not> noDangling (unpackICToGroup demoIds packedWithSwitch)" by code_simp
  show "tick noHost (-1) (unpackICToGroup demoIds packedWithSwitch)
     = Inr (after (tick noHost (-1) (unpackICToGroup demoIds packedWithSwitch)))" by code_simp
qed

subsection \<open>Pack and unpack round trip\<close>

text \<open>
  C3, as stated, fails in its last part. On the unpacked demo group in the idle simulator,
  with both switches toggled on, one forced tick leaves the light's input pin 0 false: the
  tick propagates the AND gate's old output before it evaluates the gate.
\<close>

theorem unpacked_light_after_one_tick_counterexample:
  "countType SWITCH demoGrouped = 2 \<and> countType AND demoGrouped = 1 \<and>
   countType LIGHT demoGrouped = 1 \<and>
   \<not> isRunning demoUnpacked \<and>
   thenDo demoUnpackedOn (tick noHost (-1)) = Inr (after (thenDo demoUnpackedOn (tick noHost (-1)))) \<and>
   outputOf (after demoUnpackedOn) ''n1'' 0 = Some True \<and>
   outputOf (after demoUnpackedOn) ''n2'' 0 = Some True \<and>
   typ_of (the (getNode (nodes demoUnpacked) ''n4'')) = LIGHT \<and>
   inputOf (after (thenDo demoUnpackedOn (tick noHost (-1)))) ''n4'' 0 = Some False"
proof (intro conjI)
  show "countType SWITCH demoGrouped = 2" by code_simp
  show "countType AND demoGrouped = 1" by code_simp
  show "countType LIGHT demoGrouped = 1" by code_simp
  show "\<not> isRunning demoUnpacked" by code_simp
  show "thenDo demoUnpackedOn (tick noHost (-1)) = Inr (after (thenDo demoUnpackedOn (tick noHost (-1))))"
    by code_simp
  show "outputOf (after demoUnpackedOn) ''n1'' 0 = Some True" by code_simp
  show "outputOf (after demoUnpackedOn) ''n2'' 0 = Some True" by code_simp
  show "typ_of (the (getNode (nodes demoUnpacked) ''n4'')) = LIGHT" by code_simp
  show "inputOf (after (thenDo demoUnpackedOn (tick noHost (-1)))) ''n4'' 0 = Some False" by code_simp
qed

text \<open>
  The round trip on the demo circuit, with the ids of \<open>demoIds\<close>: the packed engine holds
  a single IC, the unpacked one a new GROUP with two SWITCH nodes, one AND and one LIGHT,
  wired as the original under the renaming of the nodes. With both switches toggled on
  while the simulator is idle, the first forced tick makes the AND's output true and the
  second makes the LIGHT's input pin 0 true, on the unpacked circuit as on the original.
\<close>

lemma demo_round_trip:
  "countType SWITCH demoGrouped = 2 \<and> countType AND demoGrouped = 1 \<and>
   countType LIGHT demoGrouped = 1 \<and>
   map typ_of (nodes demoPacked) = [IC] \<and>
   countType SWITCH demoUnpacked = countType SWITCH demoGrouped \<and>
   countType AND demoUnpacked = countType AND demoGrouped \<and>
   countType LIGHT demoUnpacked = countType LIGHT demoGrouped \<and>
   map typ_of (nodes demoUnpacked) = [GROUP, SWITCH, SWITCH, AND, LIGHT] \<and>
   map nid (nodes demoUnpacked) = ''grp2'' # map demoRenaming [''sw1'', ''sw2'', ''and'', ''light''] \<and>
   map typ_of (nodes demoGrouped) = [SWITCH, SWITCH, AND, LIGHT, GROUP] \<and>
   map nid (nodes demoGrouped) = [''sw1'', ''sw2'', ''and'', ''light'', ''grp''] \<and>
   connections id (wires demoUnpacked) = connections demoRenaming (wires demoGrouped) \<and>
   connections id (wires demoGrouped) =
     [(''sw1'', 0, ''and'', 0), (''sw2'', 0, ''and'', 1), (''and'', 0, ''light'', 0)] \<and>
   thenDo demoUnpackedOn (forcedTicks noHost 2)
     = Inr (after (thenDo demoUnpackedOn (forcedTicks noHost 2))) \<and>
   outputOf (after (thenDo demoUnpackedOn (forcedTicks noHost 1))) ''n3'' 0 = Some True \<and>
   inputOf (after (thenDo demoUnpackedOn (forcedTicks noHost 2))) ''n4'' 0 = Some True \<and>
   inputOf (after (thenDo demoSwitchedOn (forcedTicks noHost 1))) ''light'' 0 = Some False \<and>
   inputOf (after (thenDo demoSwitchedOn (forcedTicks noHost 2))) ''light'' 0 = Some True \<and>
   thenDo demoUnpackedRunningOn (tick noHost (-1))
     = Inr (after (thenDo demoUnpackedRunningOn (tick noHost (-1)))) \<and>
   inputOf (after (thenDo demoUnpackedRunningOn (tick noHost (-1)))) ''n4'' 0 = Some True"
proof (intro conjI)
  show "countType SWITCH demoGrouped = 2" by code_simp
  show "countType AND demoGrouped = 1" by code_simp
  show "countType LIGHT demoGrouped = 1" by code_simp
  show "map typ_of (nodes demoPacked) = [IC]" by code_simp
  show "countType SWITCH demoUnpacked = countType SWITCH demoGrouped" by code_simp
  show "countType AND demoUnpacked = countType AND demoGrouped" by code_simp
  show "countType LIGHT demoUnpacked = countType LIGHT demoGrouped" by code_simp
  show "map typ_of (nodes demoUnpacked) = [GROUP, SWITCH, SWITCH, AND, LIGHT]" by code_simp
  show "map nid (nodes demoUnpacked) = ''grp2'' # map demoRenaming [''sw1'', ''sw2'', ''and'', ''light'']"
    by code_simp
  show "map typ_of (nodes demoGrouped) = [SWITCH, SWITCH, AND, LIGHT, GROUP]" by code_simp
  show "map nid (nodes demoGrouped) = [''sw1'', ''sw2'', ''and'', ''light'', ''grp'']" by code_simp
  show "connections id (wires demoUnpacked) = connections demoRenaming (wires demoGrouped)"
    by code_simp
  show "connections id (wires demoGrouped) =
     [(''sw1'', 0, ''and'', 0), (''sw2'', 0, ''and'', 1), (''and'', 0, ''light'', 0)]" by code_simp
  show "thenDo demoUnpackedOn (forcedTicks noHost 2)
     = Inr (after (thenDo demoUnpackedOn (forcedTicks noHost 2)))" by code_simp
  show "outputOf (after (thenDo demoUnpackedOn (forcedTicks noHost 1))) ''n3'' 0 = Some True"
    by code_simp
  show "inputOf (after (thenDo demoUnpackedOn (forcedTicks noHost 2))) ''n4'' 0 = Some True"
    by code_simp
  show "inputOf (after (thenDo demoSwitchedOn (forcedTicks noHost 1))) ''light'' 0 = Some False"
    by code_simp
  show "inputOf (after (thenDo demoSwitchedOn (forcedTicks noHost 2))) ''light'' 0 = Some True"
    by code_simp
  show "thenDo demoUnpackedRunningOn (tick noHost (-1))
     = Inr (after (thenDo demoUnpackedRunningOn (tick noHost (-1))))" by code_simp
  show "inputOf (after (thenDo demoUnpackedRunningOn (tick noHost (-1)))) ''n4'' 0 = Some True"
    by code_simp
qed

text \<open>
  The general case. First the shape of the engine after an unpack and after a pack: the
  nodes and wires they leave, written out.
\<close>

lemma isRunning_saveState: "isRunning (saveState s) = isRunning s"
  by (simp add: saveState_def Let_def)

lemma setNode_fresh: "nid n \<notin> nid ` set ns \<Longrightarrow> setNode ns n = ns @ [n]"
  by (simp add: setNode_def)

lemma fold_setNode_fresh:
  "distinct (map nid ms) \<Longrightarrow> nid ` set ms \<inter> nid ` set ns = {} \<Longrightarrow>
   fold (\<lambda>n ns. setNode ns n) ms ns = ns @ ms"
proof (induction ms arbitrary: ns)
  case Nil
  show ?case by simp
next
  case (Cons m ms)
  from Cons.prems have a: "setNode ns m = ns @ [m]" by (intro setNode_fresh) auto
  from Cons.prems have "fold (\<lambda>n ns. setNode ns n) ms (ns @ [m]) = (ns @ [m]) @ ms"
    by (intro Cons.IH) auto
  with a show ?case by simp
qed

lemma map_zip_fst:
  "length ys = length xs \<Longrightarrow> (\<And>x y. g (F x y) = h x) \<Longrightarrow>
   map g (map (\<lambda>(x, y). F x y) (zip xs ys)) = map h xs"
  by (simp add: list_eq_iff_nth_eq)

lemma map_zip_snd:
  "length ys = length xs \<Longrightarrow> (\<And>x y. g (F x y) = y) \<Longrightarrow>
   map g (map (\<lambda>(x, y). F x y) (zip xs ys)) = ys"
  by (simp add: list_eq_iff_nth_eq)

lemma deleteNode_absent: "k \<notin> nid ` set ns \<Longrightarrow> deleteNode ns k = ns"
  by (auto simp: deleteNode_def filter_id_conv)

lemma js_get_spread: "js_get (spread xs) i = js_get xs i"
  by (cases "i < length xs") (auto simp: js_get_def spread_def json_slot_def split: slot.splits)

lemma unpack_result:
  assumes sel: "find (\<lambda>k. map_option typ_of (getNode (nodes s) k) = Some IC)
                  (selectedNodeIds s) = Some k"
    and k0: "k \<noteq> []"
    and ic: "getNode (nodes s) k = Some icNode"
    and int: "internals icNode = Some (I, W)"
    and closed: "\<forall>w \<in> set W. sourceNodeId w \<in> nid ` set I \<and> targetNodeId w \<in> nid ` set I"
    and fresh: "\<forall>i. gen i \<notin> nid ` set (nodes s)"
    and inj: "inj gen"
  shows "\<exists>G N NW.
      nodes (unpackICToGroup gen s) = deleteNode (nodes s) k @ G # N \<and>
      nid G = gen 0 \<and> typ_of G = GROUP \<and>
      map nid N = map (\<lambda>i. gen (i + 1)) [0..<length I] \<and>
      map typ_of N = map typ_of I \<and>
      map (\<lambda>n. outputs (core n)) N = map (\<lambda>n. spread (outputs (core n))) I \<and>
      wires (unpackICToGroup gen s) = wires s @ NW \<and>
      connections id NW =
        connections (\<lambda>k. the (map_of (rev (zip (map nid I)
                          (map (\<lambda>i. gen (i + 1)) [0..<length I]))) k)) W \<and>
      isRunning (unpackICToGroup gen s) = isRunning s"
proof -
  let ?newIds = "map (\<lambda>i. gen (i + 1)) [0..<length I]"
  let ?idMap = "map_of (rev (zip (map nid I) ?newIds))"
  let ?G = "(case boundingBox I of (minX, minY, maxX, maxY) \<Rightarrow>
                            upd (\<lambda>c. c\<lparr>inputs := [], outputs := [],
                                        width := Some (js_plus (js_minus maxX minX) (Fin 80)),
                                        height := Some (js_plus (js_minus maxY minY) (Fin 80)),
                                        label := Some (str_or (label (core icNode)) ''Unpacked'')\<rparr>)
                                (newNode (gen 0) GROUP (position (core icNode))))"
  let ?newNodes = "map (\<lambda>(n, newId).
                            upd (\<lambda>c. c\<lparr>node_id := newId, groupId := Some (gen 0),
                                   position := \<lparr>px = px (position (core icNode)) + px (position c),
                                                py = py (position (core icNode)) + py (position c)\<rparr>,
                                   inputs := spread (inputs c),
                                   outputs := spread (outputs c)\<rparr>) n)
                          (zip I ?newIds)"
  let ?kept = "filter (\<lambda>w. ?idMap (sourceNodeId w) \<noteq> None \<and> ?idMap (targetNodeId w) \<noteq> None) W"
  let ?newWires = "map (\<lambda>(w, j).
                            w\<lparr>wire_id := gen (length I + 1 + j),
                              sourceNodeId := the (?idMap (sourceNodeId w)),
                              targetNodeId := the (?idMap (targetNodeId w)),
                              state := False\<rparr>)
                          (zip ?kept [0..<length ?kept])"
  have en: "nodes (unpackICToGroup gen s) =
          deleteNode (fold (\<lambda>n ns. setNode ns n) ?newNodes (setNode (nodes s) ?G)) k"
    unfolding unpackICToGroup_def Let_def sel option.case if_not_P[OF k0] ic int prod.case
      nodes_saveState wires_saveState
    by simp
  have ew: "wires (unpackICToGroup gen s) = wires s @ ?newWires"
    unfolding unpackICToGroup_def Let_def sel option.case if_not_P[OF k0] ic int prod.case
      nodes_saveState wires_saveState
    by simp
  have er: "isRunning (unpackICToGroup gen s) = isRunning s"
    unfolding unpackICToGroup_def Let_def sel option.case if_not_P[OF k0] ic int prod.case
    by (simp add: isRunning_saveState)
  have nidG: "nid ?G = gen 0" by (simp add: nid_def upd_def newNode_def split: prod.splits)
  have typG: "typ_of ?G = GROUP" by (simp add: typ_of_def upd_def newNode_def split: prod.splits)
  have idsN: "map nid ?newNodes = ?newIds"
    by (rule map_zip_snd) (simp_all add: nid_def upd_def)
  have typN: "map typ_of ?newNodes = map typ_of I"
    by (rule map_zip_fst) (simp_all add: typ_of_def upd_def)
  have outN: "map (\<lambda>n. outputs (core n)) ?newNodes = map (\<lambda>n. spread (outputs (core n))) I"
    by (rule map_zip_fst) (simp_all add: upd_def)
  from ic have kin: "k \<in> nid ` set (nodes s)" using getNode_nid by blast
  from fresh have g0: "gen 0 \<notin> nid ` set (nodes s)" by (rule spec)
  have "nid ?G \<notin> nid ` set (nodes s)" unfolding nidG by (rule g0)
  then have s1: "setNode (nodes s) ?G = nodes s @ [?G]" by (rule setNode_fresh)
  have "inj_on (\<lambda>i. gen (i + 1)) {0..<length I}"
  proof (rule inj_onI)
    fix x y assume "gen (x + 1) = gen (y + 1)"
    with inj have "x + 1 = y + 1" by (rule injD)
    then show "x = y" by simp
  qed
  then have "distinct ?newIds" by (simp add: distinct_map)
  then have dN: "distinct (map nid ?newNodes)" by (simp only: idsN)
  have ne0: "gen (i + 1) \<noteq> gen 0" for i
  proof
    assume "gen (i + 1) = gen 0"
    with inj have "i + 1 = 0" by (rule injD)
    then show False by simp
  qed
  have "x \<notin> nid ` set (nodes s @ [?G])" if "x \<in> set ?newIds" for x
  proof -
    from that obtain i where x: "x = gen (i + 1)" by auto
    from fresh have "gen (i + 1) \<notin> nid ` set (nodes s)" by (rule spec)
    moreover have "gen (i + 1) \<noteq> nid ?G" unfolding nidG by (rule ne0)
    ultimately show ?thesis unfolding x by simp
  qed
  then have "set ?newIds \<inter> nid ` set (nodes s @ [?G]) = {}" by blast
  moreover have "set (map nid ?newNodes) = set ?newIds" by (simp only: idsN)
  then have "nid ` set ?newNodes = set ?newIds" by (simp only: set_map)
  ultimately have "nid ` set ?newNodes \<inter> nid ` set (nodes s @ [?G]) = {}" by metis
  with dN have f: "fold (\<lambda>n ns. setNode ns n) ?newNodes (nodes s @ [?G]) = (nodes s @ [?G]) @ ?newNodes"
    by (rule fold_setNode_fresh)
  have "x \<noteq> k" if "x \<in> set (gen 0 # ?newIds)" for x
  proof -
    from that obtain j where "x = gen j" by auto
    with fresh kin show ?thesis by blast
  qed
  then have "k \<notin> set (gen 0 # ?newIds)" by blast
  moreover have "map nid (?G # ?newNodes) = gen 0 # ?newIds" by (simp only: list.map nidG idsN)
  then have "set (map nid (?G # ?newNodes)) = set (gen 0 # ?newIds)" by (simp only:)
  then have "nid ` set (?G # ?newNodes) = set (gen 0 # ?newIds)" by (simp only: set_map)
  ultimately have "k \<notin> nid ` set (?G # ?newNodes)" by metis
  then have "deleteNode (?G # ?newNodes) k = ?G # ?newNodes" by (rule deleteNode_absent)
  then have d: "deleteNode ((nodes s @ [?G]) @ ?newNodes) k = deleteNode (nodes s) k @ ?G # ?newNodes"
    by (simp add: deleteNode_def)
  have nodes_eq: "nodes (unpackICToGroup gen s) = deleteNode (nodes s) k @ ?G # ?newNodes"
    unfolding en s1 f d by (rule refl)
  have dom: "?idMap x \<noteq> None \<longleftrightarrow> x \<in> nid ` set I" for x
  proof -
    have "fst ` set (rev (zip (map nid I) ?newIds)) = set (map nid I)"
      by (simp add: map_fst_zip flip: set_map)
    then show ?thesis by (simp add: map_of_eq_None_iff)
  qed
  have "\<forall>w \<in> set W. ?idMap (sourceNodeId w) \<noteq> None \<and> ?idMap (targetNodeId w) \<noteq> None"
    unfolding dom by (rule closed)
  then have kept: "?kept = W" by (rule filter_True)
  have cw: "connections id ?newWires = connections (\<lambda>k. the (?idMap k)) W"
    unfolding kept connections_def by (rule map_zip_fst) simp_all
  from nodes_eq nidG typG idsN typN outN ew cw er show ?thesis by blast
qed

lemma pack_shape:
  assumes sel: "find (\<lambda>k. map_option typ_of (getNode (nodes s) k) = Some GROUP) (selectedNodeIds s) = Some g"
    and g0: "g \<noteq> []"
    and gn: "getNode (nodes s) g = Some gn"
    and io: "\<exists>n \<in> set (nodes s). groupId (core n) = Some g \<and> (typ_of n = SWITCH \<or> typ_of n = LIGHT)"
  shows "\<exists>ic stored.
      nodes (packGroupToIC s) = setNode (deleteNode (filter (\<lambda>n. \<not> isInternal (members g s) (nid n)) (nodes s)) g) ic \<and>
      nid ic = g \<and> typ_of ic = IC \<and>
      internals ic = Some (stored, filter (\<lambda>w. isInternal (members g s) (sourceNodeId w) \<and> isInternal (members g s) (targetNodeId w)) (wires s)) \<and>
      map nid stored = map nid (members g s) \<and> map typ_of stored = map typ_of (members g s) \<and>
      map (\<lambda>n. outputs (core n)) stored = map (\<lambda>n. outputs (core n)) (members g s) \<and>
      wires (packGroupToIC s) = filter (\<lambda>w. \<not> isInternal (members g s) (sourceNodeId w) \<and> \<not> isInternal (members g s) (targetNodeId w)) (wires s) \<and>
      selectedNodeIds (packGroupToIC s) = [g] \<and> isRunning (packGroupToIC s) = isRunning s"
proof -
  let ?I = "filter (\<lambda>n. groupId (core n) = Some g) (nodes s)"
  let ?ins = "sort_key (\<lambda>n. py (position (core n))) (filter (\<lambda>n. typ_of n = SWITCH) ?I)"
  let ?outs = "sort_key (\<lambda>n. py (position (core n))) (filter (\<lambda>n. typ_of n = LIGHT) ?I)"
  let ?ws = "filter (\<lambda>w. isInternal ?I (sourceNodeId w) \<and> isInternal ?I (targetNodeId w)) (wires s)"
  let ?ic = "icNodeOf g gn ?I ?ins ?outs ?ws"
  let ?stored = "map (\<lambda>n. upd (\<lambda>c. c\<lparr>position :=
                  \<lparr>px = px (position c) - px (position (core gn)),
                   py = py (position c) - py (position (core gn))\<rparr>,
                groupId := None\<rparr>) n) ?I"
  from io obtain n where n: "n \<in> set ?I" "typ_of n = SWITCH \<or> typ_of n = LIGHT" by auto
  then have "n \<in> set (filter (\<lambda>n. typ_of n = SWITCH) ?I) \<or> n \<in> set (filter (\<lambda>n. typ_of n = LIGHT) ?I)"
    by auto
  then have "n \<in> set ?ins \<or> n \<in> set ?outs" by (simp only: set_sort)
  then have ne: "\<not> (?ins = [] \<and> ?outs = [])" by (metis empty_iff list.set(1))
  have e: "packGroupToIC s = (saveState s)\<lparr>nodes := setNode (deleteNode
                 (filter (\<lambda>n. \<not> isInternal ?I (nid n)) (nodes s)) g) ?ic,
               wires := filter (\<lambda>w. \<not> isInternal ?I (sourceNodeId w) \<and>
                                     \<not> isInternal ?I (targetNodeId w)) (wires s),
               selectedNodeIds := [g]\<rparr>"
    unfolding packGroupToIC_def Let_def sel option.case gn
      if_not_P[OF g0] if_not_P[OF ne] nodes_saveState wires_saveState
    by (rule refl)
  have a1: "nodes (packGroupToIC s) = setNode (deleteNode
                 (filter (\<lambda>n. \<not> isInternal ?I (nid n)) (nodes s)) g) ?ic"
    unfolding e by simp
  have a2: "wires (packGroupToIC s) = filter (\<lambda>w. \<not> isInternal ?I (sourceNodeId w) \<and>
                                     \<not> isInternal ?I (targetNodeId w)) (wires s)"
    unfolding e by simp
  have a3: "selectedNodeIds (packGroupToIC s) = [g]" unfolding e by simp
  have a4: "isRunning (packGroupToIC s) = isRunning s" unfolding e by (simp add: isRunning_saveState)
  have b1: "nid ?ic = g" by (rule nid_icNodeOf)
  have b2: "typ_of ?ic = IC" by (simp add: icNodeOf_def Let_def typ_of_def)
  have b3: "internals ?ic = Some (?stored, ?ws)" by (simp add: icNodeOf_def Let_def)
  have c1: "map nid ?stored = map nid ?I" by (simp add: nid_def upd_def)
  have c2: "map typ_of ?stored = map typ_of ?I" by (simp add: typ_of_def upd_def)
  have c3: "map (\<lambda>n. outputs (core n)) ?stored = map (\<lambda>n. outputs (core n)) ?I" by (simp add: upd_def)
  from a1 a2 a3 a4 b1 b2 b3 c1 c2 c3 show ?thesis unfolding members_def by blast
qed

lemma getNode_append:
  "getNode (xs @ ys) k = (case getNode xs k of None \<Rightarrow> getNode ys k | Some n \<Rightarrow> Some n)"
  by (induction xs) (simp_all add: getNode_def)

lemma ids_deleteNode: "nid ` set (deleteNode ns k) = nid ` set ns - {k}"
  by (auto simp: deleteNode_def)

lemma renaming_inside:
  assumes "distinct (map nid I)" and "i < length I"
  shows "renaming gen I (nid (I ! i)) = gen (i + 1)"
proof -
  let ?vs = "map (\<lambda>i. gen (i + 1)) [0..<length I]"
  let ?xs = "rev (zip (map nid I) ?vs)"
  have "map fst ?xs = rev (map nid I)" by (simp add: rev_map[symmetric] map_fst_zip del: map_map)
  with assms(1) have d: "distinct (map fst ?xs)" by simp
  from assms(2) have "(map nid I ! i, ?vs ! i) \<in> set (zip (map nid I) ?vs)"
    by (auto simp: set_zip simp del: nth_map)
  with assms(2) have "(nid (I ! i), gen (i + 1)) \<in> set ?xs" by simp
  from map_of_is_SomeI[OF d this] show ?thesis by (simp add: renaming_def)
qed

lemma renaming_outside:
  assumes "k \<notin> nid ` set I"
  shows "renaming gen I k = k"
proof -
  let ?vs = "map (\<lambda>i. gen (i + 1)) [0..<length I]"
  have "fst ` set (rev (zip (map nid I) ?vs)) = set (map nid I)"
    by (simp add: map_fst_zip flip: set_map)
  with assms have "map_of (rev (zip (map nid I) ?vs)) k = None"
    by (simp add: map_of_eq_None_iff)
  then show ?thesis by (simp add: renaming_def)
qed

lemma renaming_the:
  assumes "k \<in> nid ` set I"
  shows "the (map_of (rev (zip (map nid I) (map (\<lambda>i. gen (i + 1)) [0..<length I]))) k) = renaming gen I k"
proof -
  let ?vs = "map (\<lambda>i. gen (i + 1)) [0..<length I]"
  have "fst ` set (rev (zip (map nid I) ?vs)) = set (map nid I)"
    by (simp add: map_fst_zip flip: set_map)
  with assms have "map_of (rev (zip (map nid I) ?vs)) k \<noteq> None"
    by (simp add: map_of_eq_None_iff)
  then show ?thesis by (auto simp: renaming_def)
qed

lemma round_trip_shape:
  assumes sel: "find (\<lambda>k. map_option typ_of (getNode (nodes s) k) = Some GROUP) (selectedNodeIds s) = Some g"
    and g0: "g \<noteq> []"
    and gn: "getNode (nodes s) g = Some gn"
    and io: "\<exists>n \<in> set (nodes s). groupId (core n) = Some g \<and> (typ_of n = SWITCH \<or> typ_of n = LIGHT)"
    and fresh: "\<forall>i. gen i \<notin> nid ` set (nodes s)"
    and inj: "inj gen"
  shows "\<exists>G N.
      nodes (unpackICToGroup gen (packGroupToIC s)) =
        deleteNode (filter (\<lambda>n. \<not> isInternal (members g s) (nid n)) (nodes s)) g @ G # N \<and>
      nid G = gen 0 \<and> typ_of G = GROUP \<and>
      map nid N = map (\<lambda>i. gen (i + 1)) [0..<length (members g s)] \<and>
      map typ_of N = map typ_of (members g s) \<and>
      map (\<lambda>n. outputs (core n)) N = map (\<lambda>n. spread (outputs (core n))) (members g s) \<and>
      connections id (wires (unpackICToGroup gen (packGroupToIC s))) =
        connections (renaming gen (members g s))
          (filter (\<lambda>w. \<not> isInternal (members g s) (sourceNodeId w) \<and> \<not> isInternal (members g s) (targetNodeId w)) (wires s) @
           filter (\<lambda>w. isInternal (members g s) (sourceNodeId w) \<and> isInternal (members g s) (targetNodeId w)) (wires s)) \<and>
      isRunning (unpackICToGroup gen (packGroupToIC s)) = isRunning s"
proof -
  let ?I = "members g s"
  let ?P = "packGroupToIC s"
  let ?R = "deleteNode (filter (\<lambda>n. \<not> isInternal ?I (nid n)) (nodes s)) g"
  let ?Wint = "filter (\<lambda>w. isInternal ?I (sourceNodeId w) \<and> isInternal ?I (targetNodeId w)) (wires s)"
  let ?Wext = "filter (\<lambda>w. \<not> isInternal ?I (sourceNodeId w) \<and> \<not> isInternal ?I (targetNodeId w)) (wires s)"
  from pack_shape[OF sel g0 gn io] obtain ic stored where
    p: "nodes ?P = setNode ?R ic" "nid ic = g" "typ_of ic = IC"
       "internals ic = Some (stored, ?Wint)"
       "map nid stored = map nid ?I" "map typ_of stored = map typ_of ?I"
       "map (\<lambda>n. outputs (core n)) stored = map (\<lambda>n. outputs (core n)) ?I"
       "wires ?P = ?Wext" "selectedNodeIds ?P = [g]" "isRunning ?P = isRunning s"
    by blast
  have gR: "g \<notin> nid ` set ?R" unfolding ids_deleteNode by simp
  have "nid ic \<notin> nid ` set ?R" unfolding p(2) by (rule gR)
  then have nP: "nodes ?P = ?R @ [ic]" unfolding p(1) by (rule setNode_fresh)
  from gR have "getNode ?R g = None" by (simp add: getNode_None_iff)
  then have gic: "getNode (nodes ?P) g = Some ic"
    unfolding nP getNode_append by (simp add: getNode_def p(2))
  have sel': "find (\<lambda>k. map_option typ_of (getNode (nodes ?P) k) = Some IC) (selectedNodeIds ?P) = Some g"
    unfolding p(9) using gic p(3) by simp
  have len: "length stored = length ?I" using p(5) by (rule map_eq_imp_length_eq)
  have "set (map nid stored) = set (map nid ?I)" by (simp only: p(5))
  then have ids: "nid ` set stored = nid ` set ?I" by (simp only: set_map)
  have closed: "\<forall>w \<in> set ?Wint. sourceNodeId w \<in> nid ` set stored \<and> targetNodeId w \<in> nid ` set stored"
    unfolding ids by (simp add: isInternal_def)
  from gn have gin: "g \<in> nid ` set (nodes s)" using getNode_nid by blast
  have sub: "nid ` set (nodes ?P) \<subseteq> nid ` set (nodes s)"
    unfolding nP using gin p(2) by (auto simp: deleteNode_def)
  have fresh': "\<forall>i. gen i \<notin> nid ` set (nodes ?P)" using fresh sub by blast
  from unpack_result[OF sel' g0 gic p(4) closed fresh' inj] obtain G N NW where
    u: "nodes (unpackICToGroup gen ?P) = deleteNode (nodes ?P) g @ G # N"
       "nid G = gen 0" "typ_of G = GROUP"
       "map nid N = map (\<lambda>i. gen (i + 1)) [0..<length stored]"
       "map typ_of N = map typ_of stored"
       "map (\<lambda>n. outputs (core n)) N = map (\<lambda>n. spread (outputs (core n))) stored"
       "wires (unpackICToGroup gen ?P) = wires ?P @ NW"
       "connections id NW =
          connections (\<lambda>k. the (map_of (rev (zip (map nid stored)
                          (map (\<lambda>i. gen (i + 1)) [0..<length stored]))) k)) ?Wint"
       "isRunning (unpackICToGroup gen ?P) = isRunning ?P"
    by blast
  have "deleteNode (nodes ?P) g = ?R"
    unfolding nP using deleteNode_absent[OF gR] p(2) by (simp add: deleteNode_def)
  with u(1) have c1: "nodes (unpackICToGroup gen ?P) = ?R @ G # N" by simp
  from u(4) len have c4: "map nid N = map (\<lambda>i. gen (i + 1)) [0..<length ?I]" by simp
  from u(5) p(6) have c5: "map typ_of N = map typ_of ?I" by simp
  have "map (\<lambda>n. spread (outputs (core n))) stored = map spread (map (\<lambda>n. outputs (core n)) stored)"
    by simp
  also have "\<dots> = map spread (map (\<lambda>n. outputs (core n)) ?I)" by (simp only: p(7))
  also have "\<dots> = map (\<lambda>n. spread (outputs (core n))) ?I" by simp
  finally have c6: "map (\<lambda>n. outputs (core n)) N = map (\<lambda>n. spread (outputs (core n))) ?I"
    using u(6) by simp
  have "connections (\<lambda>k. the (map_of (rev (zip (map nid stored)
                          (map (\<lambda>i. gen (i + 1)) [0..<length stored]))) k)) ?Wint
      = connections (renaming gen ?I) ?Wint"
    unfolding p(5) len connections_def
    by (rule map_cong) (simp_all add: renaming_the isInternal_def del: One_nat_def)
  with u(8) have w1: "connections id NW = connections (renaming gen ?I) ?Wint" by (rule trans)
  have w2: "connections id ?Wext = connections (renaming gen ?I) ?Wext"
    unfolding connections_def
    by (rule map_cong) (simp_all add: renaming_outside isInternal_def)
  have c7: "connections id (wires (unpackICToGroup gen ?P)) =
      connections (renaming gen ?I) (?Wext @ ?Wint)"
    unfolding u(7) p(8) using w1 w2 by (simp add: connections_def)
  from u(9) p(10) have c8: "isRunning (unpackICToGroup gen ?P) = isRunning s" by simp
  from c1 u(2,3) c4 c5 c6 c7 c8 show ?thesis by blast
qed

lemma getNode_distinct:
  "distinct (map nid ns) \<Longrightarrow> n \<in> set ns \<Longrightarrow> getNode ns (nid n) = Some n"
  by (induction ns) (auto simp: getNode_def)

lemma mset_deleteNode:
  "distinct (map nid ns) \<Longrightarrow> getNode ns k = Some n \<Longrightarrow>
     mset ns = add_mset n (mset (deleteNode ns k))"
proof (induction ns)
  case Nil
  then show ?case by (simp add: getNode_def)
next
  case (Cons m ms)
  show ?case
  proof (cases "nid m = k")
    case True
    with Cons.prems(2) have nm: "n = m" by (simp add: getNode_def)
    from True Cons.prems(1) have "k \<notin> nid ` set ms" by auto
    then have "deleteNode ms k = ms" by (rule deleteNode_absent)
    with True nm show ?thesis by (simp add: deleteNode_def)
  next
    case False
    with Cons.prems(2) have "getNode ms k = Some n" by (simp add: getNode_def)
    with Cons.prems(1) Cons.IH have "mset ms = add_mset n (mset (deleteNode ms k))" by simp
    with False show ?thesis by (simp add: deleteNode_def)
  qed
qed

lemma internal_iff:
  assumes "distinct (map nid ns)" and "n \<in> set ns"
  shows "isInternal (filter P ns) (nid n) = P n"
proof
  assume "isInternal (filter P ns) (nid n)"
  then obtain m where m: "m \<in> set ns" "P m" "nid m = nid n" by (auto simp: isInternal_def)
  from assms(1) have "inj_on nid (set ns)" by (simp add: distinct_map)
  from inj_onD[OF this m(3) m(1) assms(2)] m(2) show "P n" by simp
next
  assume "P n"
  with assms(2) show "isInternal (filter P ns) (nid n)" by (auto simp: isInternal_def)
qed

lemma length_filter_count: "length (filter (\<lambda>n. f n = t) ns) = count (mset (map f ns)) t"
  by (induction ns) auto

lemma countType_count: "countType t s = count (mset (map typ_of (nodes s))) t"
  unfolding countType_def by (rule length_filter_count)

lemma find_holds: "find P xs = Some x \<Longrightarrow> P x"
  by (induction xs) (auto split: if_splits)

lemma round_trip_types:
  assumes D: "distinct (map nid (nodes s))"
    and sel: "find (\<lambda>k. map_option typ_of (getNode (nodes s) k) = Some GROUP) (selectedNodeIds s) = Some g"
    and g0: "g \<noteq> []"
    and gn: "getNode (nodes s) g = Some gn"
    and gnot: "groupId (core gn) \<noteq> Some g"
    and io: "\<exists>n \<in> set (nodes s). groupId (core n) = Some g \<and> (typ_of n = SWITCH \<or> typ_of n = LIGHT)"
    and fresh: "\<forall>i. gen i \<notin> nid ` set (nodes s)"
    and inj: "inj gen"
  shows "mset (map typ_of (nodes (unpackICToGroup gen (packGroupToIC s)))) = mset (map typ_of (nodes s))"
proof -
  let ?I = "members g s"
  let ?F = "filter (\<lambda>n. \<not> isInternal ?I (nid n)) (nodes s)"
  from round_trip_shape[OF sel g0 gn io fresh inj] obtain G N where
    u: "nodes (unpackICToGroup gen (packGroupToIC s)) = deleteNode ?F g @ G # N"
       "typ_of G = GROUP" "map typ_of N = map typ_of ?I" by blast
  have F: "?F = filter (\<lambda>n. \<not> groupId (core n) = Some g) (nodes s)"
    unfolding members_def by (rule filter_cong[OF refl]) (simp add: internal_iff[OF D])
  from find_holds[OF sel] gn have tg: "typ_of gn = GROUP" by simp
  from getNode_nid[OF gn] have g: "nid gn = g" "gn \<in> set (nodes s)" by simp_all
  with gnot have "gn \<in> set ?F" unfolding F by simp
  moreover from D have DF: "distinct (map nid ?F)" by (rule distinct_map_filter)
  ultimately have "getNode ?F (nid gn) = Some gn" by (intro getNode_distinct)
  then have "getNode ?F g = Some gn" by (simp only: g(1))
  from mset_deleteNode[OF DF this] have mF: "mset ?F = add_mset gn (mset (deleteNode ?F g))" .
  have I: "?I = filter (\<lambda>n. groupId (core n) = Some g) (nodes s)" by (simp add: members_def)
  have "mset (nodes s) = mset (filter (\<lambda>n. groupId (core n) = Some g) (nodes s)) +
      mset (filter (\<lambda>n. \<not> groupId (core n) = Some g) (nodes s))"
    by (simp only: mset_filter multiset_partition[symmetric])
  then have p1: "mset (nodes s) = mset ?I + mset ?F" unfolding F unfolding I .
  have part: "mset (nodes s) = mset ?I + add_mset gn (mset (deleteNode ?F g))"
    unfolding p1 mF by (rule refl)
  have "mset (map typ_of (nodes s)) = image_mset typ_of (mset (nodes s))" by simp
  also have "\<dots> = image_mset typ_of (mset ?I) + add_mset GROUP (image_mset typ_of (mset (deleteNode ?F g)))"
    unfolding part using tg by simp
  finally have a: "mset (map typ_of (nodes s)) =
      mset (map typ_of ?I) + add_mset GROUP (mset (map typ_of (deleteNode ?F g)))" by simp
  have "mset (map typ_of (nodes (unpackICToGroup gen (packGroupToIC s)))) =
      mset (map typ_of (deleteNode ?F g)) + add_mset GROUP (mset (map typ_of N))"
    unfolding u(1) using u(2) by simp
  with a u(3) show ?thesis by simp
qed

lemma round_trip_wires:
  assumes sel: "find (\<lambda>k. map_option typ_of (getNode (nodes s) k) = Some GROUP) (selectedNodeIds s) = Some g"
    and g0: "g \<noteq> []"
    and gn: "getNode (nodes s) g = Some gn"
    and io: "\<exists>n \<in> set (nodes s). groupId (core n) = Some g \<and> (typ_of n = SWITCH \<or> typ_of n = LIGHT)"
    and fresh: "\<forall>i. gen i \<notin> nid ` set (nodes s)"
    and inj: "inj gen"
    and cross: "\<forall>w \<in> set (wires s). isInternal (members g s) (sourceNodeId w) = isInternal (members g s) (targetNodeId w)"
  shows "mset (connections id (wires (unpackICToGroup gen (packGroupToIC s))))
           = mset (connections (renaming gen (members g s)) (wires s))"
proof -
  let ?I = "members g s"
  let ?ext = "\<lambda>w. \<not> isInternal ?I (sourceNodeId w) \<and> \<not> isInternal ?I (targetNodeId w)"
  let ?int = "\<lambda>w. isInternal ?I (sourceNodeId w) \<and> isInternal ?I (targetNodeId w)"
  from round_trip_shape[OF sel g0 gn io fresh inj] have
    u: "connections id (wires (unpackICToGroup gen (packGroupToIC s))) =
        connections (renaming gen ?I) (filter ?ext (wires s) @ filter ?int (wires s))" by blast
  have "filter ?int (wires s) = filter (\<lambda>w. \<not> ?ext w) (wires s)"
    by (rule filter_cong[OF refl]) (use cross in auto)
  then have "mset (filter ?ext (wires s) @ filter ?int (wires s)) =
      mset (filter ?ext (wires s)) + mset (filter (\<lambda>w. \<not> ?ext w) (wires s))" by simp
  also have "\<dots> = mset (wires s)" by (simp only: mset_filter multiset_partition[symmetric])
  finally have m: "mset (filter ?ext (wires s) @ filter ?int (wires s)) = mset (wires s)" .
  have "mset (connections (renaming gen ?I) (filter ?ext (wires s) @ filter ?int (wires s)))
      = image_mset (\<lambda>w. (renaming gen ?I (sourceNodeId w), sourcePinIndex w,
                         renaming gen ?I (targetNodeId w), targetPinIndex w))
          (mset (filter ?ext (wires s) @ filter ?int (wires s)))"
    unfolding connections_def by (rule mset_map)
  also have "\<dots> = mset (connections (renaming gen ?I) (wires s))"
    unfolding m connections_def by (rule mset_map[symmetric])
  finally show ?thesis unfolding u .
qed

lemma renaming_inj:
  assumes D: "distinct (map nid (nodes s))"
    and fresh: "\<forall>i. gen i \<notin> nid ` set (nodes s)"
    and inj: "inj gen"
  shows "inj_on (renaming gen (members g s)) (nid ` set (nodes s))"
proof (rule inj_onI)
  let ?I = "members g s"
  from D have DI: "distinct (map nid ?I)" unfolding members_def by (rule distinct_map_filter)
  have inside: "\<exists>i < length ?I. k = nid (?I ! i) \<and> renaming gen ?I k = gen (i + 1)"
    if "k \<in> nid ` set ?I" for k
  proof -
    from that obtain i where i: "i < length ?I" "k = nid (?I ! i)"
      by (auto simp: in_set_conv_nth)
    with renaming_inside[OF DI i(1), of gen] show ?thesis by auto
  qed
  fix x y
  assume x: "x \<in> nid ` set (nodes s)" and y: "y \<in> nid ` set (nodes s)"
    and e: "renaming gen ?I x = renaming gen ?I y"
  show "x = y"
  proof (cases "x \<in> nid ` set ?I")
    case True
    from inside[OF True] obtain i where i: "i < length ?I" "x = nid (?I ! i)" "renaming gen ?I x = gen (i + 1)" by blast
    show ?thesis
    proof (cases "y \<in> nid ` set ?I")
      case True
      from inside[OF True] obtain j where j: "j < length ?I" "y = nid (?I ! j)" "renaming gen ?I y = gen (j + 1)" by blast
      from e i(3) j(3) have "gen (i + 1) = gen (j + 1)" by simp
      with inj have "i + 1 = j + 1" by (rule injD)
      with i(2) j(2) show ?thesis by simp
    next
      case False
      from renaming_outside[OF False, of gen] e i(3) have "gen (i + 1) = y" by simp
      with y fresh show ?thesis by blast
    qed
  next
    case False
    note xo = renaming_outside[OF False, of gen]
    show ?thesis
    proof (cases "y \<in> nid ` set ?I")
      case True
      from inside[OF True] obtain j where j: "renaming gen ?I y = gen (j + 1)" by blast
      with xo e have "gen (j + 1) = x" by simp
      with x fresh show ?thesis by blast
    next
      case False
      from renaming_outside[OF False, of gen] xo e show ?thesis by simp
    qed
  qed
qed

lemma propagate_connections:
  "propagate ws ns = (ws', ns') \<Longrightarrow> connections \<rho> ws' = connections \<rho> ws"
proof (induction ws arbitrary: ns ws' ns')
  case Nil
  then show ?case by simp
next
  case (Cons w ws)
  show ?case
  proof (cases "getNode ns (sourceNodeId w) \<noteq> None \<and> getNode ns (targetNodeId w) \<noteq> None")
    case True
    then obtain a b where ab: "getNode ns (sourceNodeId w) = Some a" "getNode ns (targetNodeId w) = Some b"
      by auto
    let ?ns1 = "modifyNode (targetNodeId w)
        (\<lambda>c. c\<lparr>inputs := js_set (inputs c) (targetPinIndex w)
                    (Val (truthy (js_get (outputs (core a)) (sourcePinIndex w))))\<rparr>) ns"
    obtain ws1 ns2 where r: "propagate ws ?ns1 = (ws1, ns2)" by (cases "propagate ws ?ns1")
    from Cons.prems ab r have "ws' = w\<lparr>state := truthy (js_get (outputs (core a)) (sourcePinIndex w))\<rparr> # ws1"
      by (simp add: Let_def)
    with Cons.IH[OF r] show ?thesis by (simp add: connections_def)
  next
    case False
    obtain ws1 ns2 where r: "propagate ws ns = (ws1, ns2)" by (cases "propagate ws ns")
    from False have "getNode ns (sourceNodeId w) = None \<or> getNode ns (targetNodeId w) = None" by simp
    with Cons.prems r have "ws' = w # ws1"
      by (cases "getNode ns (sourceNodeId w)"; cases "getNode ns (targetNodeId w)") simp_all
    with Cons.IH[OF r] show ?thesis by (simp add: connections_def)
  qed
qed

lemma tick_keeps:
  assumes "tick h t s = Inr s'"
  shows "connections \<rho> (wires s') = connections \<rho> (wires s)"
    and "map nid (nodes s') = map nid (nodes s)"
    and "map typ_of (nodes s') = map typ_of (nodes s)"
    and "isRunning s' = isRunning s"
proof -
  have "connections \<rho> (wires s') = connections \<rho> (wires s) \<and>
        map nid (nodes s') = map nid (nodes s) \<and>
        map typ_of (nodes s') = map typ_of (nodes s) \<and> isRunning s' = isRunning s"
  proof (cases "gated t s")
    case True
    then have "tick h t s = Inr s" by (auto simp: gated_def tick_def)
    with assms show ?thesis by simp
  next
    case False
    let ?ns2 = "map resetInputs (map (updateClock (tickCount s + 1)) (nodes s))"
    from assms False obtain ws ns3 cache ns4 where
      p: "propagate (wires s) ?ns2 = (ws, ns3)" and
      c: "computeLogic h (fnCache s) ns3 = (cache, ns4, None)" and
      s': "s' = s\<lparr>nodes := ns4, wires := ws, lastTick := t, tickCount := tickCount s + 1, fnCache := cache\<rparr>"
      by (rule tick_Inr_cases)
    from rel_shape[OF propagate_rel[OF p]] have sh3: "map nid ns3 = map nid (nodes s)" "map typ_of ns3 = map typ_of (nodes s)"
      unfolding phases_shape by simp_all
    from computeLogic_shape[OF c] sh3 propagate_connections[OF p, of \<rho>] s' show ?thesis by simp
  qed
  then show "connections \<rho> (wires s') = connections \<rho> (wires s)"
    and "map nid (nodes s') = map nid (nodes s)"
    and "map typ_of (nodes s') = map typ_of (nodes s)"
    and "isRunning s' = isRunning s" by simp_all
qed

lemma typ_getNode_shape:
  "map nid ns' = map nid ns \<Longrightarrow> map typ_of ns' = map typ_of ns \<Longrightarrow>
     map_option typ_of (getNode ns' k) = map_option typ_of (getNode ns k)"
proof (induction ns arbitrary: ns')
  case Nil
  then show ?case by simp
next
  case (Cons n ns)
  then obtain m ms where ns': "ns' = m # ms" by (cases ns') auto
  with Cons.prems have e: "nid m = nid n" "typ_of m = typ_of n" "map nid ms = map nid ns" "map typ_of ms = map typ_of ns"
    by simp_all
  from Cons.IH[OF e(3,4)] e(1,2) show ?case unfolding ns' by (simp add: getNode_def)
qed

lemma andLight_shape:
  assumes "connections id (wires s') = connections id (wires s)"
    and "map nid (nodes s') = map nid (nodes s)"
    and "map typ_of (nodes s') = map typ_of (nodes s)"
  shows "andLight a b c d s' = andLight a b c d s"
proof -
  have "typAt s' k = typAt s k" for k
    unfolding typAt_def using assms(2,3) by (rule typ_getNode_shape)
  moreover have "feeds s' x i y j = feeds s x i y j" for x i y j
    unfolding feeds_def assms(1) by (rule refl)
  ultimately show ?thesis unfolding andLight_def by simp
qed

lemma tick_input:
  assumes t: "tick h t s = Inr s'" and g: "\<not> gated t s" and f: "feeds s a i k j"
    and A: "getNode (nodes s) a = Some A" and nc: "typ_of A \<noteq> CLOCK"
    and B: "getNode (nodes s) k = Some B"
  shows "inputOf s' k j = Some (truthy (js_get (outputs (core A)) i))"
proof -
  let ?P = "\<lambda>w. targetNodeId w = k \<and> targetPinIndex w = j"
  from f have "(a, i, k, j) \<in> set (connections id (wires s))" by (simp add: feeds_def)
  then have "\<exists>w \<in> set (wires s). ?P w" by (auto simp: connections_def)
  from split_list_last_prop[OF this] obtain pre w post where
    sp: "wires s = pre @ w # post" "?P w" "\<forall>z \<in> set post. \<not> ?P z" by blast
  from sp(1) have "w \<in> set (wires s)" by simp
  then have "(sourceNodeId w, sourcePinIndex w, targetNodeId w, targetPinIndex w)
      \<in> set (connections id (wires s))" by (auto simp: connections_def)
  with f sp(2) have src: "sourceNodeId w = a" "sourcePinIndex w = i" by (auto simp: feeds_def)
  let ?tc = "tickCount s + 1"
  let ?ns2 = "map resetInputs (map (updateClock ?tc) (nodes s))"
  from t g obtain ws ns3 cache ns4 where
    p: "propagate (wires s) ?ns2 = (ws, ns3)" and
    c: "computeLogic h (fnCache s) ns3 = (cache, ns4, None)" and
    s': "s' = s\<lparr>nodes := ns4, wires := ws, lastTick := t, tickCount := ?tc, fnCache := cache\<rparr>"
    by (rule tick_Inr_cases)
  let ?A2 = "resetInputs (updateClock ?tc A)"
  let ?B2 = "resetInputs (updateClock ?tc B)"
  have gA: "getNode ?ns2 (sourceNodeId w) = Some ?A2" unfolding getNode_phases src A by simp
  have gB: "getNode ?ns2 (targetNodeId w) = Some ?B2" unfolding getNode_phases using sp(2) B by simp
  have hyp: "\<forall>w' \<in> set post. targetNodeId w' = targetNodeId w \<and> targetPinIndex w' = targetPinIndex w
            \<longrightarrow> getNode ?ns2 (sourceNodeId w') = None"
    using sp(2,3) by blast
  from propagate_wire[OF p[unfolded sp(1)] gA gB hyp] obtain B3 where
    B3: "getNode ns3 (targetNodeId w) = Some B3"
      "js_get (inputs (core B3)) (targetPinIndex w)
         = Some (truthy (js_get (outputs (core ?A2)) (sourcePinIndex w)))" by blast
  from computeLogic_getNode[OF c B3(1)] obtain B4 ca cb where
    B4: "getNode ns4 (targetNodeId w) = Some B4" "evalNode h ca B3 = Inr (cb, B4)" by blast
  from evalNode_keeps[OF B4(2)] have "inputs (core B4) = inputs (core B3)" by simp
  with B3(2) B4(1) s' sp(2) src have "inputOf s' k j
      = Some (truthy (js_get (outputs (core (updateClock ?tc A))) i))"
    by (simp add: inputOf_def resetInputs_keeps)
  moreover from nc have "updateClock ?tc A = A" by (simp add: updateClock_def)
  ultimately show ?thesis by simp
qed

lemma evalNode_switch: "typ_of n = SWITCH \<Longrightarrow> evalNode h c n = Inr (c, n)"
  by (simp add: evalNode_def)

lemma tick_switch_output:
  assumes t: "tick h t s = Inr s'" and A: "getNode (nodes s) k = Some A" and sw: "typ_of A = SWITCH"
  shows "outputOf s' k i = outputOf s k i"
proof (cases "gated t s")
  case True
  then have "tick h t s = Inr s" by (auto simp: gated_def tick_def)
  with t show ?thesis by simp
next
  case False
  let ?tc = "tickCount s + 1"
  let ?ns2 = "map resetInputs (map (updateClock ?tc) (nodes s))"
  from t False obtain ws ns3 cache ns4 where
    p: "propagate (wires s) ?ns2 = (ws, ns3)" and
    c: "computeLogic h (fnCache s) ns3 = (cache, ns4, None)" and
    s': "s' = s\<lparr>nodes := ns4, wires := ws, lastTick := t, tickCount := ?tc, fnCache := cache\<rparr>"
    by (rule tick_Inr_cases)
  from sw have "resetInputs (updateClock ?tc A) = A" by (simp add: resetInputs_def updateClock_def)
  then have g2: "getNode ?ns2 k = Some A" unfolding getNode_phases A by simp
  from rel_getNode[OF propagate_rel[OF p], of k] g2 obtain A3 where
    A3: "getNode ns3 k = Some A3" "same_but_inputs A A3" by auto
  from same_but_inputs_keeps[OF A3(2)] sw have k3: "typ_of A3 = SWITCH" "outputs (core A3) = outputs (core A)"
    by simp_all
  from computeLogic_getNode[OF c A3(1)] obtain A4 ca cb where
    A4: "getNode ns4 k = Some A4" "evalNode h ca A3 = Inr (cb, A4)" by blast
  from A4(2) evalNode_switch[OF k3(1), of h ca] have "A4 = A3" by simp
  with A4(1) k3(2) s' A show ?thesis by (simp add: outputOf_def)
qed

lemma tick_and:
  assumes t: "tick h t s = Inr s'" and g: "\<not> gated t s" and ty: "typAt s' c = Some AND"
  shows "outputOf s' c 0 = js_and (inputOf s' c 0) (inputOf s' c 1)"
proof -
  from ty obtain C where C: "getNode (nodes s') c = Some C" "typ_of C = AND"
    by (auto simp: typAt_def)
  from getNode_nid[OF C(1)] have "C \<in> set (nodes s')" by simp
  from tick_done_nodes[OF t g this] obtain n ca cb where e: "evalNode h ca n = Inr (cb, C)" by blast
  from evalNode_keeps[OF e] C(2) have k: "typ_of n = AND" "inputs (core n) = inputs (core C)" by simp_all
  from evalNode_out0[OF e] k have "js_get (outputs (core C)) 0
      = js_and (js_get (inputs (core C)) 0) (js_get (inputs (core C)) 1)" by simp
  with C(1) show ?thesis by (simp add: outputOf_def inputOf_def)
qed

lemma andLight_step:
  assumes t: "tick h (-1) s = Inr s'" and al: "andLight a b c d s"
    and oa: "outputOf s a 0 = Some True" and ob: "outputOf s b 0 = Some True"
  shows "andLight a b c d s'" and "outputOf s' a 0 = Some True" and "outputOf s' b 0 = Some True"
    and "outputOf s' c 0 = Some True"
    and "outputOf s c 0 = Some True \<Longrightarrow> inputOf s' d 0 = Some True"
proof -
  have g: "\<not> gated (-1) s" by (simp add: gated_def)
  from al obtain A B C D where
    n: "getNode (nodes s) a = Some A" "typ_of A = SWITCH"
       "getNode (nodes s) b = Some B" "typ_of B = SWITCH"
       "getNode (nodes s) c = Some C" "typ_of C = AND"
       "getNode (nodes s) d = Some D" "typ_of D = LIGHT"
    by (auto simp: andLight_def typAt_def)
  from al have f: "feeds s a 0 c 0" "feeds s b 0 c 1" "feeds s c 0 d 0" by (simp_all add: andLight_def)
  from tick_keeps(1)[OF t, of id] tick_keeps(2,3)[OF t]
  have k: "connections id (wires s') = connections id (wires s)"
    "map nid (nodes s') = map nid (nodes s)" "map typ_of (nodes s') = map typ_of (nodes s)"
    by simp_all
  from andLight_shape[OF k] al show al': "andLight a b c d s'" by simp
  from tick_switch_output[OF t n(1,2), of 0] oa show "outputOf s' a 0 = Some True" by simp
  from tick_switch_output[OF t n(3,4), of 0] ob show "outputOf s' b 0 = Some True" by simp
  from oa n(1) have "js_get (outputs (core A)) 0 = Some True" by (simp add: outputOf_def)
  with tick_input[OF t g f(1) n(1) _ n(5)] n(2) have i0: "inputOf s' c 0 = Some True"
    by (simp add: truthy_def)
  from ob n(3) have "js_get (outputs (core B)) 0 = Some True" by (simp add: outputOf_def)
  with tick_input[OF t g f(2) n(3) _ n(5)] n(4) have i1: "inputOf s' c 1 = Some True"
    by (simp add: truthy_def)
  from al' have "typAt s' c = Some AND" by (simp add: andLight_def)
  from tick_and[OF t g this] i0 i1 show "outputOf s' c 0 = Some True"
    by (simp add: js_and_def truthy_def)
  assume "outputOf s c 0 = Some True"
  with n(5) have "js_get (outputs (core C)) 0 = Some True" by (simp add: outputOf_def)
  with tick_input[OF t g f(3) n(5) _ n(7)] n(6) show "inputOf s' d 0 = Some True"
    by (simp add: truthy_def)
qed

lemma thenDo_Inr: "thenDo r f = Inr s' \<Longrightarrow> \<exists>s1. r = Inr s1 \<and> f s1 = Inr s'"
  by (cases r) (simp_all add: thenDo_def)

lemma flipSwitch_keeps:
  "map nid (nodes (flipSwitch k s)) = map nid (nodes s)"
  "map typ_of (nodes (flipSwitch k s)) = map typ_of (nodes s)"
  "wires (flipSwitch k s) = wires s"
  "isRunning (flipSwitch k s) = isRunning s"
  by (simp_all add: flipSwitch_def modifyNode_def nid_def typ_of_def upd_def)

lemma flipSwitch_andLight: "andLight a b c d (flipSwitch k s) = andLight a b c d s"
  by (rule andLight_shape) (simp_all add: flipSwitch_keeps)

lemma flipSwitch_typAt: "typAt (flipSwitch k s) x = typAt s x"
  unfolding typAt_def by (rule typ_getNode_shape) (simp_all add: flipSwitch_keeps)

lemma flipSwitch_output:
  "outputOf (flipSwitch k s) x i =
     (if x = k \<and> i = 0 \<and> getNode (nodes s) k \<noteq> None
      then Some (\<not> truthy (outputOf s k 0)) else outputOf s x i)"
proof (cases "getNode (nodes s) x")
  case None
  then show ?thesis by (auto simp: outputOf_def flipSwitch_def getNode_modifyNode)
next
  case (Some n)
  from getNode_nid[OF Some] have "nid n = x" by simp
  with Some show ?thesis
    by (auto simp: outputOf_def flipSwitch_def getNode_modifyNode upd_def js_get_set_same js_get_set_other)
qed

lemma toggleSwitch_flip:
  assumes "typAt s k = Some SWITCH"
  shows "toggleSwitch h k s =
           (if isRunning s then tick h (-1) (flipSwitch k s) else Inr (flipSwitch k s))"
proof -
  from assms obtain n where "getNode (nodes s) k = Some n" "typ_of n = SWITCH"
    by (auto simp: typAt_def)
  then show ?thesis by (simp add: toggleSwitch_def flipSwitch_def Let_def)
qed

lemma toggle_on:
  assumes r: "toggleSwitch h k s = Inr s'" and ty: "typAt s k = Some SWITCH"
    and off: "outputOf s k 0 \<noteq> Some True"
  shows "andLight a b c d s' = andLight a b c d s"
    and "outputOf s' k 0 = Some True"
    and "typAt s x = Some SWITCH \<Longrightarrow> x \<noteq> k \<Longrightarrow> outputOf s' x 0 = outputOf s x 0"
    and "isRunning s' = isRunning s"
    and "typAt s' x = typAt s x"
proof -
  let ?f = "flipSwitch k s"
  from ty have ex: "getNode (nodes s) k \<noteq> None" by (auto simp: typAt_def)
  from off have fo: "outputOf ?f k 0 = Some True"
    by (simp add: flipSwitch_output ex truthy_def)
  from r have c: "(\<not> isRunning s \<and> s' = ?f) \<or> (isRunning s \<and> tick h (-1) ?f = Inr s')"
    unfolding toggleSwitch_flip[OF ty] by (auto split: if_splits)
  have sh: "connections id (wires s') = connections id (wires ?f) \<and>
      map nid (nodes s') = map nid (nodes ?f) \<and> map typ_of (nodes s') = map typ_of (nodes ?f) \<and>
      isRunning s' = isRunning ?f"
    using c tick_keeps(1)[of h "-1" ?f s' id] tick_keeps(2,3,4)[of h "-1" ?f s'] by auto
  then have "andLight a b c d s' = andLight a b c d ?f" by (intro andLight_shape) simp_all
  then show "andLight a b c d s' = andLight a b c d s" by (simp add: flipSwitch_andLight)
  from sh show "isRunning s' = isRunning s" by (simp add: flipSwitch_keeps)
  from sh have "typAt s' x = typAt ?f x" unfolding typAt_def by (intro typ_getNode_shape) simp_all
  then show "typAt s' x = typAt s x" by (simp add: flipSwitch_typAt)
  have sw: "outputOf s' y 0 = outputOf ?f y 0" if "typAt s y = Some SWITCH" for y
  proof -
    from that have "typAt ?f y = Some SWITCH" by (simp add: flipSwitch_typAt)
    then obtain n where n: "getNode (nodes ?f) y = Some n" "typ_of n = SWITCH"
      by (auto simp: typAt_def)
    from c show ?thesis
    proof
      assume "\<not> isRunning s \<and> s' = ?f"
      then show ?thesis by simp
    next
      assume "isRunning s \<and> tick h (-1) ?f = Inr s'"
      then have "tick h (-1) ?f = Inr s'" by simp
      from tick_switch_output[OF this n] show ?thesis .
    qed
  qed
  from sw[OF ty] fo show "outputOf s' k 0 = Some True" by simp
  assume "typAt s x = Some SWITCH" "x \<noteq> k"
  with sw[of x] show "outputOf s' x 0 = outputOf s x 0" by (simp add: flipSwitch_output)
qed

lemma toggles_on:
  assumes al: "andLight a b c d s" and ne: "a \<noteq> b"
    and off: "outputOf s a 0 \<noteq> Some True" "outputOf s b 0 \<noteq> Some True"
    and r: "thenDo (toggleSwitch h a s) (toggleSwitch h b) = Inr s2"
  shows "andLight a b c d s2" and "outputOf s2 a 0 = Some True" and "outputOf s2 b 0 = Some True"
    and "isRunning s2 = isRunning s" and "isRunning s \<Longrightarrow> outputOf s2 c 0 = Some True"
proof -
  from al have ty: "typAt s a = Some SWITCH" "typAt s b = Some SWITCH" by (simp_all add: andLight_def)
  from thenDo_Inr[OF r] obtain s1 where
    s1: "toggleSwitch h a s = Inr s1" "toggleSwitch h b s1 = Inr s2" by blast
  note t1 = toggle_on[OF s1(1) ty(1) off(1)]
  from t1(1)[of a b c d] al have al1: "andLight a b c d s1" by simp
  from t1(3)[OF ty(2)] ne off(2) have ob1: "outputOf s1 b 0 \<noteq> Some True" by simp
  from t1(5)[of a] t1(5)[of b] ty have ty1: "typAt s1 a = Some SWITCH" "typAt s1 b = Some SWITCH"
    by simp_all
  note t2 = toggle_on[OF s1(2) ty1(2) ob1]
  from t2(1)[of a b c d] al1 show al2: "andLight a b c d s2" by simp
  from t2(3)[OF ty1(1)] ne t1(2) show oa2: "outputOf s2 a 0 = Some True" by simp
  from t2(2) show ob2: "outputOf s2 b 0 = Some True" .
  from t2(4) t1(4) show run: "isRunning s2 = isRunning s" by simp
  assume "isRunning s"
  with t1(4) have r1: "isRunning s1" by simp
  let ?f = "flipSwitch b s1"
  from s1(2) r1 have tk: "tick h (-1) ?f = Inr s2" unfolding toggleSwitch_flip[OF ty1(2)] by simp
  from al1 have alf: "andLight a b c d ?f" by (simp add: flipSwitch_andLight)
  from ty1(2) have ex: "getNode (nodes s1) b \<noteq> None" by (auto simp: typAt_def)
  from ob1 have obf: "outputOf ?f b 0 = Some True" by (simp add: flipSwitch_output ex truthy_def)
  from ne t1(2) have oaf: "outputOf ?f a 0 = Some True" by (simp add: flipSwitch_output)
  from andLight_step(4)[OF tk alf oaf obf] show "outputOf s2 c 0 = Some True" .
qed

lemma and_light_two_ticks:
  assumes al: "andLight a b c d s" and ne: "a \<noteq> b"
    and off: "outputOf s a 0 \<noteq> Some True" "outputOf s b 0 \<noteq> Some True"
    and r: "thenDo (thenDo (toggleSwitch h a s) (toggleSwitch h b)) (forcedTicks h 2) = Inr s'"
  shows "inputOf s' d 0 = Some True"
proof -
  from thenDo_Inr[OF r] obtain s2 where
    s2: "thenDo (toggleSwitch h a s) (toggleSwitch h b) = Inr s2" "forcedTicks h 2 s2 = Inr s'" by blast
  note on = toggles_on[OF al ne off s2(1)]
  from s2(2) have "forcedTicks h (Suc (Suc 0)) s2 = Inr s'" by (simp add: numeral_2_eq_2)
  from forcedTicks_last[OF this] obtain s3 where
    s3: "forcedTicks h (Suc 0) s2 = Inr s3" "tick h (-1) s3 = Inr s'" by blast
  from s3(1) have t1: "tick h (-1) s2 = Inr s3" by (simp add: thenDo_def)
  note st1 = andLight_step[OF t1 on(1,2,3)]
  from andLight_step(5)[OF s3(2) st1(1,2,3) st1(4)] show ?thesis .
qed

lemma and_light_one_tick_running:
  assumes al: "andLight a b c d s" and ne: "a \<noteq> b"
    and off: "outputOf s a 0 \<noteq> Some True" "outputOf s b 0 \<noteq> Some True"
    and run: "isRunning s"
    and r: "thenDo (thenDo (toggleSwitch h a s) (toggleSwitch h b)) (forcedTicks h 1) = Inr s'"
  shows "inputOf s' d 0 = Some True"
proof -
  from thenDo_Inr[OF r] obtain s2 where
    s2: "thenDo (toggleSwitch h a s) (toggleSwitch h b) = Inr s2" "forcedTicks h 1 s2 = Inr s'" by blast
  note on = toggles_on[OF al ne off s2(1)]
  from s2(2) have t1: "tick h (-1) s2 = Inr s'" by (simp add: thenDo_def)
  from andLight_step(5)[OF t1 on(1,2,3) on(5)[OF run]] show ?thesis .
qed

lemma no_ic_shape:
  "map typ_of ns' = map typ_of ns \<Longrightarrow> \<forall>m \<in> set ns. typ_of m \<noteq> IC \<Longrightarrow> \<forall>m \<in> set ns'. typ_of m \<noteq> IC"
proof -
  assume e: "map typ_of ns' = map typ_of ns" and a: "\<forall>m \<in> set ns. typ_of m \<noteq> IC"
  from a have "IC \<notin> set (map typ_of ns)" by auto
  with e have "IC \<notin> set (map typ_of ns')" by simp
  then show "\<forall>m \<in> set ns'. typ_of m \<noteq> IC" by (metis image_eqI set_map)
qed

lemma toggle_total_no_ic:
  assumes "\<forall>m \<in> set (nodes s). typ_of m \<noteq> IC"
  shows "\<exists>s'. toggleSwitch h k s = Inr s' \<and> map typ_of (nodes s') = map typ_of (nodes s)"
proof (cases "typAt s k = Some SWITCH")
  case True
  let ?f = "flipSwitch k s"
  from no_ic_shape[OF flipSwitch_keeps(2) assms] have "\<forall>m \<in> set (nodes ?f). typ_of m \<noteq> IC" .
  from tick_total_no_ic[OF this, of h "-1"] obtain s' where
    "tick h (-1) ?f = Inr s'" "map typ_of (nodes s') = map typ_of (nodes ?f)" by blast
  then show ?thesis unfolding toggleSwitch_flip[OF True] by (simp add: flipSwitch_keeps)
next
  case False
  then have "toggleSwitch h k s = Inr s"
    by (auto simp: toggleSwitch_def typAt_def split: option.splits)
  then show ?thesis by simp
qed

lemma toggles_ticks_total_no_ic:
  assumes "\<forall>m \<in> set (nodes s). typ_of m \<noteq> IC"
  shows "\<exists>s'. thenDo (thenDo (toggleSwitch h a s) (toggleSwitch h b)) (forcedTicks h n) = Inr s'"
proof -
  from toggle_total_no_ic[OF assms, of h a] obtain s1 where
    s1: "toggleSwitch h a s = Inr s1" "map typ_of (nodes s1) = map typ_of (nodes s)" by blast
  from no_ic_shape[OF s1(2) assms] have n1: "\<forall>m \<in> set (nodes s1). typ_of m \<noteq> IC" .
  from toggle_total_no_ic[OF n1, of h b] obtain s2 where
    s2: "toggleSwitch h b s1 = Inr s2" "map typ_of (nodes s2) = map typ_of (nodes s1)" by blast
  from no_ic_shape[OF s2(2) n1] have n2: "\<forall>m \<in> set (nodes s2). typ_of m \<noteq> IC" .
  from forcedTicks_total_no_ic[OF n2, of h n] obtain s' where "forcedTicks h n s2 = Inr s'" by blast
  with s1(1) s2(1) show ?thesis by (simp add: thenDo_def)
qed

lemma members_distinct: "distinct (map nid (nodes s)) \<Longrightarrow> distinct (map nid (members g s))"
  unfolding members_def by (rule distinct_map_filter)

lemma round_trip_member:
  assumes D: "distinct (map nid (nodes s))"
    and sel: "find (\<lambda>k. map_option typ_of (getNode (nodes s) k) = Some GROUP) (selectedNodeIds s) = Some g"
    and g0: "g \<noteq> []"
    and gn: "getNode (nodes s) g = Some gn"
    and io: "\<exists>n \<in> set (nodes s). groupId (core n) = Some g \<and> (typ_of n = SWITCH \<or> typ_of n = LIGHT)"
    and fresh: "\<forall>i. gen i \<notin> nid ` set (nodes s)"
    and inj: "inj gen"
    and k: "k \<in> nid ` set (members g s)"
  shows "typAt (unpackICToGroup gen (packGroupToIC s)) (renaming gen (members g s) k) = typAt s k"
    and "outputOf (unpackICToGroup gen (packGroupToIC s)) (renaming gen (members g s) k) j = outputOf s k j"
proof -
  let ?I = "members g s"
  let ?U = "unpackICToGroup gen (packGroupToIC s)"
  let ?R = "deleteNode (filter (\<lambda>n. \<not> isInternal ?I (nid n)) (nodes s)) g"
  let ?newIds = "map (\<lambda>i. gen (i + 1)) [0..<length ?I]"
  from round_trip_shape[OF sel g0 gn io fresh inj] obtain G N where
    u: "nodes ?U = ?R @ G # N" "nid G = gen 0"
       "map nid N = ?newIds" "map typ_of N = map typ_of ?I"
       "map (\<lambda>n. outputs (core n)) N = map (\<lambda>n. spread (outputs (core n))) ?I" by blast
  note DI = members_distinct[OF D, of g]
  from k obtain i where i: "i < length ?I" "k = nid (?I ! i)" by (auto simp: in_set_conv_nth)
  from renaming_inside[OF DI i(1), of gen] i(2) have rk: "renaming gen ?I k = gen (i + 1)" by simp
  have len: "length N = length ?I" using arg_cong[OF u(3), of length] by simp
  from arg_cong[OF u(3), of "\<lambda>xs. xs ! i"] i(1) len have ni: "nid (N ! i) = gen (i + 1)" by simp
  from arg_cong[OF u(4), of "\<lambda>xs. xs ! i"] i(1) len have ti: "typ_of (N ! i) = typ_of (?I ! i)" by simp
  from arg_cong[OF u(5), of "\<lambda>xs. xs ! i"] i(1) len
  have oi: "outputs (core (N ! i)) = spread (outputs (core (?I ! i)))" by simp
  have "inj_on (\<lambda>i. gen (i + 1)) {0..<length ?I}"
  proof (rule inj_onI)
    fix x y assume "gen (x + 1) = gen (y + 1)"
    with inj have "x + 1 = y + 1" by (rule injD)
    then show "x = y" by simp
  qed
  then have dn: "distinct ?newIds" by (simp add: distinct_map)
  have ne0: "gen 0 \<notin> set ?newIds"
  proof
    assume "gen 0 \<in> set ?newIds"
    then obtain x where "gen 0 = gen (x + 1)" by auto
    with inj have "0 = x + 1" by (rule injD)
    then show False by simp
  qed
  have dR: "distinct (map nid ?R)" unfolding deleteNode_def
    by (intro distinct_map_filter D)
  have sR: "set (map nid ?R) \<subseteq> nid ` set (nodes s)" by (auto simp: deleteNode_def)
  have fr: "x \<notin> nid ` set (nodes s)" if "x \<in> set (gen 0 # ?newIds)" for x
  proof -
    from that obtain m where "x = gen m" by auto
    with fresh show ?thesis by simp
  qed
  then have disj: "set (map nid ?R) \<inter> set (gen 0 # ?newIds) = {}" using sR by blast
  have "map nid (nodes ?U) = map nid ?R @ gen 0 # ?newIds" unfolding u(1) by (simp add: u(2,3))
  moreover have "distinct (map nid ?R @ gen 0 # ?newIds)"
    unfolding distinct_append using dR dn ne0 disj by simp
  ultimately have DU: "distinct (map nid (nodes ?U))" by simp
  from i(1) len have "N ! i \<in> set (nodes ?U)" unfolding u(1) by simp
  from getNode_distinct[OF DU this] ni rk
  have gU: "getNode (nodes ?U) (renaming gen ?I k) = Some (N ! i)" by simp
  from i(1) have "?I ! i \<in> set ?I" by simp
  then have "?I ! i \<in> set (nodes s)" by (simp add: members_def)
  from getNode_distinct[OF D this] i(2) have gs: "getNode (nodes s) k = Some (?I ! i)" by simp
  from gU gs ti show "typAt ?U (renaming gen ?I k) = typAt s k" by (simp add: typAt_def)
  from gU gs oi show "outputOf ?U (renaming gen ?I k) j = outputOf s k j"
    by (simp add: outputOf_def js_get_spread)
qed

lemma round_trip_feeds:
  assumes D: "distinct (map nid (nodes s))"
    and sel: "find (\<lambda>k. map_option typ_of (getNode (nodes s) k) = Some GROUP) (selectedNodeIds s) = Some g"
    and g0: "g \<noteq> []"
    and gn: "getNode (nodes s) g = Some gn"
    and io: "\<exists>n \<in> set (nodes s). groupId (core n) = Some g \<and> (typ_of n = SWITCH \<or> typ_of n = LIGHT)"
    and fresh: "\<forall>i. gen i \<notin> nid ` set (nodes s)"
    and freshW: "\<forall>i. gen i \<notin> targetNodeId ` set (wires s)"
    and inj: "inj gen"
    and a: "a \<in> nid ` set (members g s)" and k: "k \<in> nid ` set (members g s)"
    and f: "feeds s a i k j"
  shows "feeds (unpackICToGroup gen (packGroupToIC s))
           (renaming gen (members g s) a) i (renaming gen (members g s) k) j"
proof -
  let ?I = "members g s"
  let ?\<rho> = "renaming gen ?I"
  let ?U = "unpackICToGroup gen (packGroupToIC s)"
  let ?ext = "\<lambda>w. \<not> isInternal ?I (sourceNodeId w) \<and> \<not> isInternal ?I (targetNodeId w)"
  let ?int = "\<lambda>w. isInternal ?I (sourceNodeId w) \<and> isInternal ?I (targetNodeId w)"
  from round_trip_shape[OF sel g0 gn io fresh inj] have
    u: "connections id (wires ?U) = connections ?\<rho> (filter ?ext (wires s) @ filter ?int (wires s))"
    by blast
  from f have "(a, i, k, j) \<in> set (connections id (wires s))" by (simp add: feeds_def)
  then obtain w where w: "w \<in> set (wires s)" "sourceNodeId w = a" "sourcePinIndex w = i"
    "targetNodeId w = k" "targetPinIndex w = j" by (auto simp: connections_def)
  with a k have "w \<in> set (filter ?int (wires s))" by (simp add: isInternal_def)
  with w have m: "(?\<rho> a, i, ?\<rho> k, j) \<in> set (connections id (wires ?U))"
    unfolding u unfolding connections_def by force
  note DI = members_distinct[OF D, of g]
  from k obtain q where q: "q < length ?I" "k = nid (?I ! q)" by (auto simp: in_set_conv_nth)
  from renaming_inside[OF DI q(1), of gen] q(2) have rk: "?\<rho> k = gen (q + 1)" by simp
  have "nid ` set ?I \<subseteq> nid ` set (nodes s)" by (auto simp: members_def)
  with renaming_inj[OF D fresh inj, of g] have injI: "inj_on ?\<rho> (nid ` set ?I)"
    by (rule inj_on_subset)
  have un: "c = (?\<rho> a, i, ?\<rho> k, j)"
    if c: "c \<in> set (connections id (wires ?U))" and t: "snd (snd c) = (?\<rho> k, j)" for c
  proof -
    from c obtain v where v: "v \<in> set (wires s)"
      "c = (?\<rho> (sourceNodeId v), sourcePinIndex v, ?\<rho> (targetNodeId v), targetPinIndex v)"
      unfolding u unfolding connections_def by auto
    from t v(2) have tv: "?\<rho> (targetNodeId v) = ?\<rho> k" "targetPinIndex v = j" by simp_all
    have "targetNodeId v = k"
    proof (cases "targetNodeId v \<in> nid ` set ?I")
      case True
      from inj_onD[OF injI tv(1) True k] show ?thesis .
    next
      case False
      from renaming_outside[OF False, of gen] tv(1) rk have "targetNodeId v = gen (q + 1)" by simp
      with v(1) freshW show ?thesis by (metis image_eqI)
    qed
    with v(1) tv(2) have "(sourceNodeId v, sourcePinIndex v, k, j) \<in> set (connections id (wires s))"
      by (force simp: connections_def)
    with f have "sourceNodeId v = a" "sourcePinIndex v = i" by (auto simp: feeds_def)
    with v(2) tv show ?thesis by simp
  qed
  from m un show ?thesis unfolding feeds_def by blast
qed

lemma set_mset_types:
  "mset (map typ_of ns') = mset (map typ_of ns) \<Longrightarrow>
   \<forall>m \<in> set ns. typ_of m \<noteq> IC \<Longrightarrow> \<forall>m \<in> set ns'. typ_of m \<noteq> IC"
proof -
  assume e: "mset (map typ_of ns') = mset (map typ_of ns)" and a: "\<forall>m \<in> set ns. typ_of m \<noteq> IC"
  from a have "IC \<notin> set (map typ_of ns)" by auto
  with mset_eq_setD[OF e] have "IC \<notin> set (map typ_of ns')" by simp
  then show "\<forall>m \<in> set ns'. typ_of m \<noteq> IC" by (metis image_eqI set_map)
qed

lemma hashIds_inj: "inj hashIds"
proof (rule injI)
  fix x y assume "hashIds x = hashIds y"
  then have "length (hashIds x) = length (hashIds y)" by simp
  then show "x = y" by (simp add: hashIds_def)
qed

text \<open>
  C3, amended. Let the node ids of the engine be pairwise different, let \<open>g\<close> be the
  group that \<^verbatim>\<open>packGroupToIC\<close> picks, let its members be exactly two SWITCH nodes, an AND
  gate and a LIGHT, the gate's input pins 0 and 1 driven only by output 0 of the two
  switches and the light's input pin 0 only by output 0 of the gate, and let no wire cross
  the boundary of the group. Let the unpack draw ids that are pairwise different and occur
  nowhere in the engine, neither as a node id nor as an endpoint of a wire. Then packing
  the group and unpacking the IC gives an engine with the same number of nodes of every
  type (of SWITCH, AND and LIGHT nodes in particular) and with the same pin-to-pin
  connections under a renaming \<open>\<rho>\<close> of the node ids; \<open>\<rho>\<close> is injective on the node ids,
  gives the members of the group ids that were not in the engine and leaves every other
  id as it is; and the renamed nodes form the same circuit of two switches, gate and
  light. Behaviour, when both switches were off: toggling both on and forcing two ticks
  makes the LIGHT's input pin 0 true whenever these calls return normally; while the
  simulator is running (each toggle then forces a tick of its own) one forced tick is
  enough; and in an engine without IC nodes the calls do return normally.
\<close>

theorem pack_unpack_round_trip:
  assumes D: "distinct (map nid (nodes s))"
    and sel: "find (\<lambda>k. typAt s k = Some GROUP) (selectedNodeIds s) = Some g"
    and g0: "g \<noteq> []"
    and grp: "nid ` set (members g s) = {sw1, sw2, gate, light}"
    and two: "sw1 \<noteq> sw2"
    and circ: "andLight sw1 sw2 gate light s"
    and cross: "\<forall>w \<in> set (wires s).
                  isInternal (members g s) (sourceNodeId w) = isInternal (members g s) (targetNodeId w)"
    and off: "outputOf s sw1 0 \<noteq> Some True" "outputOf s sw2 0 \<noteq> Some True"
    and inj: "inj gen"
    and fresh: "\<forall>i. gen i \<notin> nid ` set (nodes s) \<union> sourceNodeId ` set (wires s)
                        \<union> targetNodeId ` set (wires s)"
  shows "(let U = unpackICToGroup gen (packGroupToIC s);
              \<rho> = renaming gen (members g s);
              on = thenDo (toggleSwitch h (\<rho> sw1) U) (toggleSwitch h (\<rho> sw2))
          in countType t U = countType t s \<and>
             mset (connections id (wires U)) = mset (connections \<rho> (wires s)) \<and>
             inj_on \<rho> (nid ` set (nodes s)) \<and>
             (\<forall>k \<in> nid ` set (members g s). \<rho> k \<notin> nid ` set (nodes s)) \<and>
             (\<forall>k. k \<notin> nid ` set (members g s) \<longrightarrow> \<rho> k = k) \<and>
             andLight (\<rho> sw1) (\<rho> sw2) (\<rho> gate) (\<rho> light) U \<and>
             (\<forall>s'. thenDo on (forcedTicks h 2) = Inr s' \<longrightarrow> inputOf s' (\<rho> light) 0 = Some True) \<and>
             (isRunning s \<longrightarrow>
                (\<forall>s'. thenDo on (forcedTicks h 1) = Inr s' \<longrightarrow> inputOf s' (\<rho> light) 0 = Some True)) \<and>
             ((\<forall>n \<in> set (nodes s). typ_of n \<noteq> IC) \<longrightarrow>
                (\<exists>s'. thenDo on (forcedTicks h 1) = Inr s') \<and>
                (\<exists>s'. thenDo on (forcedTicks h 2) = Inr s')))"
proof -
  let ?I = "members g s"
  let ?U = "unpackICToGroup gen (packGroupToIC s)"
  let ?\<rho> = "renaming gen ?I"
  let ?on = "thenDo (toggleSwitch h (?\<rho> sw1) ?U) (toggleSwitch h (?\<rho> sw2))"
  from sel have sel': "find (\<lambda>k. map_option typ_of (getNode (nodes s) k) = Some GROUP)
      (selectedNodeIds s) = Some g" unfolding typAt_def .
  from find_holds[OF sel'] obtain gn where gn: "getNode (nodes s) g = Some gn" "typ_of gn = GROUP"
    by auto
  from fresh have freshN: "\<forall>i. gen i \<notin> nid ` set (nodes s)"
    and freshW: "\<forall>i. gen i \<notin> targetNodeId ` set (wires s)" by simp_all
  from grp have m: "sw1 \<in> nid ` set ?I" "sw2 \<in> nid ` set ?I" "gate \<in> nid ` set ?I"
    "light \<in> nid ` set ?I" by simp_all
  have sub: "nid ` set ?I \<subseteq> nid ` set (nodes s)" by (auto simp: members_def)
  from circ have ty: "typAt s sw1 = Some SWITCH" "typAt s sw2 = Some SWITCH"
    "typAt s gate = Some AND" "typAt s light = Some LIGHT" by (simp_all add: andLight_def)
  from circ have fd: "feeds s sw1 0 gate 0" "feeds s sw2 0 gate 1" "feeds s gate 0 light 0"
    by (simp_all add: andLight_def)
  from m(1) obtain n1 where n1: "n1 \<in> set (nodes s)" "groupId (core n1) = Some g" "nid n1 = sw1"
    by (auto simp: members_def)
  from getNode_distinct[OF D n1(1)] n1(3) ty(1) have "typ_of n1 = SWITCH" by (simp add: typAt_def)
  with n1 have io: "\<exists>n \<in> set (nodes s). groupId (core n) = Some g \<and> (typ_of n = SWITCH \<or> typ_of n = LIGHT)"
    by blast
  have gnot: "groupId (core gn) \<noteq> Some g"
  proof
    assume "groupId (core gn) = Some g"
    with getNode_nid[OF gn(1)] have "g \<in> nid ` set ?I" by (force simp: members_def)
    with grp have "g = sw1 \<or> g = sw2 \<or> g = gate \<or> g = light" by simp
    with ty gn show False by (auto simp: typAt_def)
  qed
  have c1: "countType t ?U = countType t s"
    unfolding countType_count round_trip_types[OF D sel' g0 gn(1) gnot io freshN inj] by (rule refl)
  note c2 = round_trip_wires[OF sel' g0 gn(1) io freshN inj cross]
  note c3 = renaming_inj[OF D freshN inj, of g]
  have c4: "\<forall>k \<in> nid ` set ?I. ?\<rho> k \<notin> nid ` set (nodes s)"
  proof
    fix k assume "k \<in> nid ` set ?I"
    then obtain i where i: "i < length ?I" "k = nid (?I ! i)" by (auto simp: in_set_conv_nth)
    from renaming_inside[OF members_distinct[OF D] i(1), of gen] i(2) have "?\<rho> k = gen (i + 1)" by simp
    with freshN show "?\<rho> k \<notin> nid ` set (nodes s)" by simp
  qed
  have c4': "\<forall>k. k \<notin> nid ` set ?I \<longrightarrow> ?\<rho> k = k" using renaming_outside by blast
  note mem = round_trip_member[OF D sel' g0 gn(1) io freshN inj]
  note fee = round_trip_feeds[OF D sel' g0 gn(1) io freshN freshW inj]
  have alU: "andLight (?\<rho> sw1) (?\<rho> sw2) (?\<rho> gate) (?\<rho> light) ?U"
    unfolding andLight_def
    using mem(1)[OF m(1)] mem(1)[OF m(2)] mem(1)[OF m(3)] mem(1)[OF m(4)] ty
      fee[OF m(1) m(3) fd(1)] fee[OF m(2) m(3) fd(2)] fee[OF m(3) m(4) fd(3)]
    by simp
  from mem(2)[OF m(1), of 0] off(1) have o1: "outputOf ?U (?\<rho> sw1) 0 \<noteq> Some True" by simp
  from mem(2)[OF m(2), of 0] off(2) have o2: "outputOf ?U (?\<rho> sw2) 0 \<noteq> Some True" by simp
  have ne: "?\<rho> sw1 \<noteq> ?\<rho> sw2"
  proof
    assume "?\<rho> sw1 = ?\<rho> sw2"
    from inj_onD[OF c3 this] m(1,2) sub two show False by blast
  qed
  have c5: "\<forall>s'. thenDo ?on (forcedTicks h 2) = Inr s' \<longrightarrow> inputOf s' (?\<rho> light) 0 = Some True"
    using and_light_two_ticks[OF alU ne o1 o2] by blast
  from round_trip_shape[OF sel' g0 gn(1) io freshN inj] have run: "isRunning ?U = isRunning s" by blast
  have c6: "isRunning s \<longrightarrow>
      (\<forall>s'. thenDo ?on (forcedTicks h 1) = Inr s' \<longrightarrow> inputOf s' (?\<rho> light) 0 = Some True)"
    using and_light_one_tick_running[OF alU ne o1 o2] run by blast
  have c7: "(\<forall>n \<in> set (nodes s). typ_of n \<noteq> IC) \<longrightarrow>
      (\<exists>s'. thenDo ?on (forcedTicks h 1) = Inr s') \<and> (\<exists>s'. thenDo ?on (forcedTicks h 2) = Inr s')"
  proof
    assume "\<forall>n \<in> set (nodes s). typ_of n \<noteq> IC"
    from set_mset_types[OF round_trip_types[OF D sel' g0 gn(1) gnot io freshN inj] this]
    have "\<forall>m \<in> set (nodes ?U). typ_of m \<noteq> IC" .
    from toggles_ticks_total_no_ic[OF this] show
      "(\<exists>s'. thenDo ?on (forcedTicks h 1) = Inr s') \<and> (\<exists>s'. thenDo ?on (forcedTicks h 2) = Inr s')"
      by blast
  qed
  from c1 c2 c3 c4 c4' alU c5 c6 c7 show ?thesis unfolding Let_def by blast
qed

theorem pack_unpack_round_trip_witness:
  "distinct (map nid (nodes demoGrouped)) \<and>
   find (\<lambda>k. typAt demoGrouped k = Some GROUP) (selectedNodeIds demoGrouped) = Some ''grp'' \<and>
   map nid (members ''grp'' demoGrouped) = [''sw1'', ''sw2'', ''and'', ''light''] \<and>
   andLight ''sw1'' ''sw2'' ''and'' ''light'' demoGrouped \<and>
   outputOf demoGrouped ''sw1'' 0 = Some False \<and> outputOf demoGrouped ''sw2'' 0 = Some False \<and>
   map (renaming hashIds (members ''grp'' demoGrouped)) [''sw1'', ''sw2'', ''and'', ''light'']
     = [''##'', ''###'', ''####'', ''#####''] \<and>
   countType SWITCH (unpackICToGroup hashIds (packGroupToIC demoGrouped)) = countType SWITCH demoGrouped \<and>
   countType AND (unpackICToGroup hashIds (packGroupToIC demoGrouped)) = countType AND demoGrouped \<and>
   countType LIGHT (unpackICToGroup hashIds (packGroupToIC demoGrouped)) = countType LIGHT demoGrouped \<and>
   mset (connections id (wires (unpackICToGroup hashIds (packGroupToIC demoGrouped))))
     = mset (connections (renaming hashIds (members ''grp'' demoGrouped)) (wires demoGrouped)) \<and>
   inputOf (after (thenDo (thenDo (toggleSwitch noHost ''##'' (unpackICToGroup hashIds (packGroupToIC demoGrouped)))
                                  (toggleSwitch noHost ''###''))
                          (forcedTicks noHost 2))) ''#####'' 0 = Some True"
proof -
  let ?s = demoGrouped
  let ?I = "members ''grp'' demoGrouped"
  let ?U = "unpackICToGroup hashIds (packGroupToIC demoGrouped)"
  let ?\<rho> = "renaming hashIds ?I"
  have D: "distinct (map nid (nodes ?s))" by code_simp
  have sel: "find (\<lambda>k. typAt ?s k = Some GROUP) (selectedNodeIds ?s) = Some ''grp''" by code_simp
  have g0: "''grp'' \<noteq> []" by simp
  have ms: "map nid ?I = [''sw1'', ''sw2'', ''and'', ''light'']" by code_simp
  have "set (map nid ?I) = {''sw1'', ''sw2'', ''and'', ''light''}" unfolding ms by simp
  then have grp: "nid ` set ?I = {''sw1'', ''sw2'', ''and'', ''light''}" by (simp only: set_map)
  have two: "''sw1'' \<noteq> ''sw2''" by simp
  have circ: "andLight ''sw1'' ''sw2'' ''and'' ''light'' ?s" by code_simp
  have cross: "\<forall>w \<in> set (wires ?s). isInternal ?I (sourceNodeId w) = isInternal ?I (targetNodeId w)"
    by code_simp
  have o1: "outputOf ?s ''sw1'' 0 = Some False" by code_simp
  have o2: "outputOf ?s ''sw2'' 0 = Some False" by code_simp
  from o1 o2 have off: "outputOf ?s ''sw1'' 0 \<noteq> Some True" "outputOf ?s ''sw2'' 0 \<noteq> Some True"
    by simp_all
  have used: "\<forall>k \<in> nid ` set (nodes ?s) \<union> sourceNodeId ` set (wires ?s) \<union> targetNodeId ` set (wires ?s).
      hd k \<noteq> CHR ''#''" by code_simp
  have "hd (hashIds i) = CHR ''#''" for i by (simp add: hashIds_def)
  with used have fresh: "\<forall>i. hashIds i \<notin> nid ` set (nodes ?s) \<union> sourceNodeId ` set (wires ?s)
      \<union> targetNodeId ` set (wires ?s)" by blast
  have noic: "\<forall>n \<in> set (nodes ?s). typ_of n \<noteq> IC" by code_simp
  have rn: "map ?\<rho> [''sw1'', ''sw2'', ''and'', ''light''] = [''##'', ''###'', ''####'', ''#####'']"
    by code_simp
  then have r: "?\<rho> ''sw1'' = ''##''" "?\<rho> ''sw2'' = ''###''" "?\<rho> ''light'' = ''#####''" by simp_all
  note th = pack_unpack_round_trip[OF D sel g0 grp two circ cross off hashIds_inj fresh,
      unfolded Let_def r, of _ noHost]
  from th[of SWITCH] have c1: "countType SWITCH ?U = countType SWITCH ?s" by blast
  from th[of AND] have c2: "countType AND ?U = countType AND ?s" by blast
  from th[of LIGHT] have c3: "countType LIGHT ?U = countType LIGHT ?s" by blast
  from th[of SWITCH] have c4: "mset (connections id (wires ?U)) = mset (connections ?\<rho> (wires ?s))"
    by blast
  let ?run = "thenDo (thenDo (toggleSwitch noHost ''##'' ?U) (toggleSwitch noHost ''###''))
                (forcedTicks noHost 2)"
  from th[of SWITCH] noic obtain s' where s': "?run = Inr s'" by blast
  with th[of SWITCH] have "inputOf s' ''#####'' 0 = Some True" by blast
  with s' have c5: "inputOf (after ?run) ''#####'' 0 = Some True" by (simp add: after_def)
  from D sel ms circ o1 o2 rn c1 c2 c3 c4 c5 show ?thesis by blast
qed

subsection \<open>Importing a library document\<close>

text \<open>
  C9, as stated, fails: the items are written one by one and nothing is rolled back. For
  the document \<^verbatim>\<open>[{"name":"Adder"},null]\<close> the first item is written, the second throws
  a TypeError (a property cannot be assigned to \<^verbatim>\<open>null\<close>), the import fails and the first
  item stays in the store.
\<close>

theorem import_partial_counterexample:
  "importLibraryFromJSON memoryHost brokenDocument []
     = Inl (TypeError, [(JObj [(''name'', JStr ''Adder'')], ''id0'', 1000)])"
  by code_simp

lemma importItems_Inr:
  "importItems h k items db = Inr (n, db') \<Longrightarrow>
     n = k + length items \<and> putAll h k items db = Some db'"
proof (induction items arbitrary: k db)
  case Nil
  then show ?case by simp
next
  case (Cons item rest)
  from Cons.prems have a: "assignable item" by (auto split: if_splits)
  with Cons.prems obtain db1 where p: "db_put h db (item, generateId h k, Date_now h k) = Some db1"
    by (cases "db_put h db (item, generateId h k, Date_now h k)") auto
  with a Cons.prems have "importItems h (Suc k) rest db1 = Inr (n, db')" by simp
  from Cons.IH[OF this] a p show ?case by simp
qed

lemma importItems_Inl:
  "importItems h k items db = Inl (e, db') \<Longrightarrow>
     \<exists>j < length items. putAll h k (take j items) db = Some db' \<and>
        putAll h k (take (Suc j) items) db = None \<and>
        (e = TypeError \<longleftrightarrow> \<not> assignable (items ! j))"
proof (induction items arbitrary: k db)
  case Nil
  then show ?case by simp
next
  case (Cons item rest)
  show ?case
  proof (cases "assignable item")
    case False
    with Cons.prems have "db' = db" "e = TypeError" by simp_all
    with False have "putAll h k (take 0 (item # rest)) db = Some db' \<and>
        putAll h k (take (Suc 0) (item # rest)) db = None \<and>
        (e = TypeError \<longleftrightarrow> \<not> assignable ((item # rest) ! 0))" by simp
    moreover have "0 < length (item # rest)" by simp
    ultimately show ?thesis by blast
  next
    case True
    show ?thesis
    proof (cases "db_put h db (item, generateId h k, Date_now h k)")
      case None
      with True Cons.prems have "db' = db" "e = StorageError" by simp_all
      with True None have "putAll h k (take 0 (item # rest)) db = Some db' \<and>
        putAll h k (take (Suc 0) (item # rest)) db = None \<and>
        (e = TypeError \<longleftrightarrow> \<not> assignable ((item # rest) ! 0))" by simp
      moreover have "0 < length (item # rest)" by simp
    ultimately show ?thesis by blast
    next
      case (Some db1)
      with True Cons.prems have "importItems h (Suc k) rest db1 = Inl (e, db')" by simp
      from Cons.IH[OF this] obtain j where j: "j < length rest"
        "putAll h (Suc k) (take j rest) db1 = Some db'"
        "putAll h (Suc k) (take (Suc j) rest) db1 = None"
        "e = TypeError \<longleftrightarrow> \<not> assignable (rest ! j)" by blast
      with True Some have "putAll h k (take (Suc j) (item # rest)) db = Some db' \<and>
        putAll h k (take (Suc (Suc j)) (item # rest)) db = None \<and>
        (e = TypeError \<longleftrightarrow> \<not> assignable ((item # rest) ! Suc j))" by simp
      moreover from j(1) have "Suc j < length (item # rest)" by simp
      ultimately show ?thesis by blast
    qed
  qed
qed

text \<open>
  C9, amended. For a document that parses to a list, with the database open: the import
  succeeds exactly when every item can be written, and then all items are in the store,
  written in document order, and the count returned is their number; when it fails, it
  fails at the first item \<open>j\<close> that is not an object (TypeError) or whose write is rejected,
  and the store then holds the \<open>j\<close> items before it, written in order. Nothing is rolled
  back.
\<close>

theorem import_writes_in_order:
  assumes "JSON_parse h text = Some (JArr items)" and "getDB h"
  shows "(importLibraryFromJSON h text db = Inr (n, db') \<longrightarrow>
            n = length items \<and> putAll h 0 items db = Some db') \<and>
         (importLibraryFromJSON h text db = Inl (e, db') \<longrightarrow>
            (\<exists>j < length items. putAll h 0 (take j items) db = Some db' \<and>
               putAll h 0 (take (Suc j) items) db = None \<and>
               (e = TypeError \<longleftrightarrow> \<not> assignable (items ! j)))) \<and>
         (putAll h 0 items db = Some db' \<longrightarrow>
            importLibraryFromJSON h text db = Inr (length items, db'))"
proof -
  from assms have e: "importLibraryFromJSON h text db = importItems h 0 items db"
    by (simp add: importLibraryFromJSON_def)
  have tot: "putAll h k xs d = Some d' \<Longrightarrow> importItems h k xs d = Inr (k + length xs, d')" for k xs d d'
  proof (induction xs arbitrary: k d)
    case Nil
    then show ?case by simp
  next
    case (Cons x xs)
    from Cons.prems have a: "assignable x" by (auto split: if_splits)
    with Cons.prems obtain d1 where p: "db_put h d (x, generateId h k, Date_now h k) = Some d1"
      by (cases "db_put h d (x, generateId h k, Date_now h k)") auto
    with a Cons.prems have "putAll h (Suc k) xs d1 = Some d'" by simp
    from Cons.IH[OF this] a p show ?case by simp
  qed
  show ?thesis
    unfolding e using importItems_Inr[of h 0 items db n db'] importItems_Inl[of h 0 items db e db']
      tot[of 0 items db db'] by auto
qed

theorem import_writes_in_order_witness:
  "JSON_parse memoryHost brokenDocument = Some (JArr [JObj [(''name'', JStr ''Adder'')], JNull]) \<and>
   getDB memoryHost \<and>
   importLibraryFromJSON memoryHost brokenDocument []
     = Inl (TypeError, [(JObj [(''name'', JStr ''Adder'')], ''id0'', 1000)]) \<and>
   putAll memoryHost 0 (take 1 [JObj [(''name'', JStr ''Adder'')], JNull]) []
        = Some [(JObj [(''name'', JStr ''Adder'')], ''id0'', 1000)] \<and>
   putAll memoryHost 0 (take 2 [JObj [(''name'', JStr ''Adder'')], JNull]) [] = None \<and>
   JSON_parse memoryHost ''[{\"name\":\"Adder\"},{\"name\":\"Latch\"}]''
     = Some (JArr [JObj [(''name'', JStr ''Adder'')], JObj [(''name'', JStr ''Latch'')]]) \<and>
   putAll memoryHost 0 [JObj [(''name'', JStr ''Adder'')], JObj [(''name'', JStr ''Latch'')]] []
     = Some [(JObj [(''name'', JStr ''Adder'')], ''id0'', 1000),
             (JObj [(''name'', JStr ''Latch'')], ''id1'', 1001)] \<and>
   importLibraryFromJSON memoryHost ''[{\"name\":\"Adder\"},{\"name\":\"Latch\"}]'' []
     = Inr (2, [(JObj [(''name'', JStr ''Adder'')], ''id0'', 1000),
                (JObj [(''name'', JStr ''Latch'')], ''id1'', 1001)])"
proof -
  let ?bad = "[JObj [(''name'', JStr ''Adder'')], JNull]"
  let ?good = "[JObj [(''name'', JStr ''Adder'')], JObj [(''name'', JStr ''Latch'')]]"
  let ?one = "[(JObj [(''name'', JStr ''Adder'')], ''id0'', 1000 :: real)]"
  let ?two = "[(JObj [(''name'', JStr ''Adder'')], ''id0'', 1000 :: real),
               (JObj [(''name'', JStr ''Latch'')], ''id1'', 1001)]"
  have p1: "JSON_parse memoryHost brokenDocument = Some (JArr ?bad)" by code_simp
  have p2: "JSON_parse memoryHost ''[{\"name\":\"Adder\"},{\"name\":\"Latch\"}]'' = Some (JArr ?good)"
    by code_simp
  have g: "getDB memoryHost" by code_simp
  have r1: "importLibraryFromJSON memoryHost brokenDocument [] = Inl (TypeError, ?one)" by code_simp
  have w2: "putAll memoryHost 0 ?good [] = Some ?two" by code_simp
  have c1: "putAll memoryHost 0 (take 1 ?bad) [] = Some ?one \<and>
      putAll memoryHost 0 (take 2 ?bad) [] = None" by code_simp
  from import_writes_in_order[OF p2 g, of "[]" 2 ?two TypeError] w2
  have c2: "importLibraryFromJSON memoryHost ''[{\"name\":\"Adder\"},{\"name\":\"Latch\"}]'' []
     = Inr (2, ?two)" by simp
  from p1 g r1 c1 p2 w2 c2 show ?thesis by blast
qed

text \<open>
  A document that does not parse or is not a list, or a database that does not open,
  leaves the store as it was.
\<close>

lemma import_untouched_store:
  "JSON_parse h text = None \<or> \<not> getDB h \<or>
     (\<exists>doc. JSON_parse h text = Some doc \<and> (\<forall>items. doc \<noteq> JArr items)) \<Longrightarrow>
   \<exists>r. importLibraryFromJSON h text db = Inl (r, db) \<or> importLibraryFromJSON h text db = Inr (0, db)"
  by (auto simp: importLibraryFromJSON_def split: option.splits json.splits)

end
